theory Spec2Isabelle
  imports Complex_Main
begin

section \<open>The Mastermind engine of the notebook\<close>

text \<open>
  The class \<open>Mastermind\<close> keeps the two dimensions, the dictionary \<open>X\<close> of the
  indicator variables and a linear solver. The solver is a library object: what
  the class does with it is to create the variables, to add linear equalities, to
  call \<open>Solve()\<close> and to read \<open>solution_value()\<close> of every variable. The model
  keeps the variables and the equalities the class hands to the solver, with the
  right-hand sides as the doubles the solver receives, and takes what the solver
  reports back as an argument of \<open>new_guess\<close>.
\<close>

subsection \<open>Data\<close>

datatype error = KeyError | IndexError | OverflowError | SolverError

text \<open>The variable created as \<open>IntVar(0, 1, 'x[i][j]')\<close> is the pair \<open>(i, j)\<close>.\<close>

type_synonym var = "int \<times> nat"

text \<open>
  \<open>Sum(vs) == rhs\<close> as the solver keeps it: the variables summed, each occurrence
  counted, and the right-hand side, a double (given by its value, a rational).
\<close>

type_synonym lin_constraint = "var list \<times> rat"

record lp_solver =
  variables :: "var list"
  constraints :: "lin_constraint list"

record mastermind =
  solver :: lp_solver
  digits :: int
  length_m :: int
  X :: "int \<rightharpoonup> var list"

text \<open>What \<open>new_guess\<close> returns: a string, or \<open>False\<close>.\<close>

datatype guess_result = PyStr string | PyFalse

text \<open>
  One run of the solver as \<open>new_guess\<close> sees it: \<open>Solve()\<close> raises, or it returns
  (its status is not read) and \<open>solution_value()\<close> of a variable gives a number or
  raises (\<open>None\<close>).
\<close>

datatype solver_run = SolveRaises | SolveReturns "var \<Rightarrow> rat option"

subsection \<open>Python's \<open>range\<close> and \<open>str\<close>\<close>

text \<open>\<open>range(k)\<close> is empty for \<open>k \<le> 0\<close>.\<close>

definition range_nat :: "int \<Rightarrow> nat list" where
  "range_nat k = [0..<nat k]"

definition range_int :: "int \<Rightarrow> int list" where
  "range_int k = map int [0..<nat k]"

fun digit_chars :: "nat \<Rightarrow> string" where
  "digit_chars k =
     (if k < 10 then [''0123456789'' ! k]
      else digit_chars (k div 10) @ [''0123456789'' ! (k mod 10)])"

declare digit_chars.simps [simp del]

definition str :: "int \<Rightarrow> string" where
  "str i = (if i < 0 then CHR ''-'' # digit_chars (nat (- i)) else digit_chars (nat i))"

subsection \<open>Python's conversion of an \<open>int\<close> to a \<open>float\<close>\<close>

text \<open>
  The solver keeps the bounds of a constraint as doubles. A Python \<open>int\<close> becomes the
  nearest double, a tie going to the even mantissa of 53 bits, and the conversion
  raises OverflowError when the rounded value is \<open>2 ^ 1024\<close> or more in magnitude.
  Integers below \<open>2 ^ 53\<close> in magnitude are kept as they are.
\<close>

fun bit_length :: "nat \<Rightarrow> nat" where
  "bit_length k = (if k = 0 then 0 else Suc (bit_length (k div 2)))"

declare bit_length.simps [simp del]

definition round_nat :: "nat \<Rightarrow> nat" where
  "round_nat a =
     (if a < 2 ^ 53 then a
      else let e = bit_length a - 53; q = a div 2 ^ e; r = a mod 2 ^ e
           in (if 2 ^ e < 2 * r \<or> (2 * r = 2 ^ e \<and> q mod 2 = 1) then q + 1 else q) * 2 ^ e)"

definition double_of :: "int \<Rightarrow> rat" where
  "double_of h = (if h < 0 then - of_nat (round_nat (nat (- h))) else of_nat (round_nat (nat h)))"

definition overflows :: "int \<Rightarrow> bool" where
  "overflows h = (2 ^ 1024 \<le> round_nat (nat \<bar>h\<bar>))"

definition py_float :: "int \<Rightarrow> error + rat" where
  "py_float h = (if overflows h then Inl OverflowError else Inr (double_of h))"

subsection \<open>\<open>__init__\<close>\<close>

text \<open>
  The first loop fills \<open>X[i]\<close> with the variables \<open>x[i][0..n-1]\<close>, in the order the
  solver receives them; the second adds, for every position \<open>j\<close>, the equality
  \<open>Sum(X[i][j] for i in range(d)) == 1\<close>, where \<open>X[i][j]\<close> is the variable \<open>(i, j)\<close>.
\<close>

definition new_row :: "int \<Rightarrow> int \<Rightarrow> var list" where
  "new_row n i = map (\<lambda>j. (i, j)) (range_nat n)"

definition init :: "int \<Rightarrow> int \<Rightarrow> mastermind" where
  "init d n =
     \<lparr> solver =
         \<lparr> variables = concat (map (new_row n) (range_int d)),
           constraints = map (\<lambda>j. (map (\<lambda>i. (i, j)) (range_int d), 1)) (range_nat n) \<rparr>,
       digits = d,
       length_m = n,
       X = fold (\<lambda>i D. D(i \<mapsto> new_row n i)) (range_int d) Map.empty \<rparr>"

subsection \<open>\<open>add_restr\<close>\<close>

text \<open>
  The generator \<open>self.X[int(pswd[j])][j] for j in range(self.length)\<close>, consumed
  by \<open>Sum\<close> before \<open>Add\<close> is called: \<open>pswd[j]\<close> raises IndexError past the end of the
  guess, the dictionary raises KeyError on a symbol that is not a key, and the row
  raises IndexError past its end. A guess is given by the integers \<open>int(pswd[j])\<close>
  of its elements: the element itself for an integer, as the cell that loads the
  guesses file passes them, the number it spells for a string such as \<open>'3'\<close>.
  Elements on which \<open>int\<close> raises are not modelled.
\<close>

fun restr_vars :: "(int \<rightharpoonup> var list) \<Rightarrow> int list \<Rightarrow> nat list \<Rightarrow> error + var list" where
  "restr_vars D pswd [] = Inr []"
| "restr_vars D pswd (j # js) =
     (if length pswd \<le> j then Inl IndexError
      else (case D (pswd ! j) of
        None \<Rightarrow> Inl KeyError
      | Some row \<Rightarrow>
          (if length row \<le> j then Inl IndexError
           else (case restr_vars D pswd js of
             Inl e \<Rightarrow> Inl e
           | Inr vs \<Rightarrow> Inr (row ! j # vs)))))"

definition add_constraint :: "lin_constraint \<Rightarrow> mastermind \<Rightarrow> mastermind" where
  "add_constraint c m =
     m\<lparr>solver := (solver m)\<lparr>constraints := constraints (solver m) @ [c]\<rparr>\<rparr>"

text \<open>
  \<open>Sum(...) == hit\<close> makes a constraint with both bounds \<open>hit\<close>, a Python integer
  of any size; \<open>Add\<close> hands the bounds to the solver as doubles, after the sum has
  been built. A count too large for a double raises OverflowError there and nothing
  is added; any other count is stored as the double nearest to it.
\<close>

definition add_restr :: "mastermind \<Rightarrow> int list \<Rightarrow> int \<Rightarrow> error + mastermind" where
  "add_restr m pswd hit =
     (case restr_vars (X m) pswd (range_nat (length_m m)) of
        Inl e \<Rightarrow> Inl e
      | Inr vs \<Rightarrow>
          (case py_float hit of
             Inl e \<Rightarrow> Inl e
           | Inr b \<Rightarrow> Inr (add_constraint (vs, b) m)))"

text \<open>Adding the pairs of a list one after the other, as the loop over the guesses file does.\<close>

fun add_restrs :: "mastermind \<Rightarrow> (int list \<times> int) list \<Rightarrow> error + mastermind" where
  "add_restrs m [] = Inr m"
| "add_restrs m ((pswd, hit) # gs) =
     (case add_restr m pswd hit of Inl e \<Rightarrow> Inl e | Inr m' \<Rightarrow> add_restrs m' gs)"

subsection \<open>\<open>new_guess\<close>\<close>

text \<open>
  The inner loop over \<open>i in range(self.digits)\<close> with the suggestion so far. The
  assignment \<open>i += self.digits\<close> changes nothing: the \<open>for\<close> statement binds \<open>i\<close>
  anew at every round, so every symbol of the column whose value exceeds \<open>0.5\<close> is
  appended.
\<close>

fun column_loop ::
  "(int \<rightharpoonup> var list) \<Rightarrow> (var \<Rightarrow> rat option) \<Rightarrow> nat \<Rightarrow> int list \<Rightarrow> string \<Rightarrow> error + string" where
  "column_loop D sv j [] s = Inr s"
| "column_loop D sv j (i # is) s =
     (case D i of
        None \<Rightarrow> Inl KeyError
      | Some row \<Rightarrow>
          (if length row \<le> j then Inl IndexError
           else (case sv (row ! j) of
             None \<Rightarrow> Inl SolverError
           | Some v \<Rightarrow> column_loop D sv j is (if v > 1 / 2 then s @ '' '' @ str i else s))))"

fun position_loop ::
  "(int \<rightharpoonup> var list) \<Rightarrow> (var \<Rightarrow> rat option) \<Rightarrow> int list \<Rightarrow> nat list \<Rightarrow> string \<Rightarrow> error + string" where
  "position_loop D sv is [] s = Inr s"
| "position_loop D sv is (j # js) s =
     (case column_loop D sv j is s of
        Inl e \<Rightarrow> Inl e
      | Inr s' \<Rightarrow> position_loop D sv is js s')"

text \<open>The body of the \<open>try\<close>.\<close>

definition new_guess_try :: "mastermind \<Rightarrow> solver_run \<Rightarrow> error + string" where
  "new_guess_try m run =
     (case run of
        SolveRaises \<Rightarrow> Inl SolverError
      | SolveReturns sv \<Rightarrow>
          position_loop (X m) sv (range_int (digits m)) (range_nat (length_m m)) [])"

text \<open>The bare \<open>except:\<close> turns every exception of the body into \<open>False\<close>.\<close>

definition new_guess :: "mastermind \<Rightarrow> solver_run \<Rightarrow> error + guess_result" where
  "new_guess m run =
     (case new_guess_try m run of
        Inl e \<Rightarrow> Inr PyFalse
      | Inr s \<Rightarrow> Inr (PyStr s))"


subsection \<open>The vocabulary of the properties\<close>

text \<open>
  A solution the solver reports as feasible: every variable is \<open>0\<close> or \<open>1\<close> (the
  bounds and integrality of \<open>IntVar(0, 1, _)\<close>) and every equality added so far holds.
\<close>

definition holds :: "(var \<Rightarrow> rat) \<Rightarrow> lin_constraint \<Rightarrow> bool" where
  "holds sol c = (sum_list (map sol (fst c)) = snd c)"

definition feasible_point :: "mastermind \<Rightarrow> (var \<Rightarrow> rat) \<Rightarrow> bool" where
  "feasible_point m sol =
     (list_all (\<lambda>v. sol v = 0 \<or> sol v = 1) (variables (solver m)) \<and>
      list_all (holds sol) (constraints (solver m)))"

text \<open>The run in which \<open>Solve()\<close> returns and every variable reports its value of \<open>sol\<close>.\<close>

definition reports :: "(var \<Rightarrow> rat) \<Rightarrow> solver_run" where
  "reports sol = SolveReturns (\<lambda>v. Some (sol v))"

text \<open>The number of positions of the assignment where it carries the symbol of the guess.\<close>

definition match_count :: "int list \<Rightarrow> int list \<Rightarrow> int" where
  "match_count a pswd = int (length (filter (\<lambda>(x, y). x = y) (zip a pswd)))"

text \<open>The text of a suggestion: every symbol after a blank.\<close>

definition render :: "int list \<Rightarrow> string" where
  "render a = concat (map (\<lambda>i. '' '' @ str i) a)"

text \<open>The 0/1 point that stands for an assignment.\<close>

definition encode :: "int list \<Rightarrow> var \<Rightarrow> rat" where
  "encode a v = (if snd v < length a \<and> a ! snd v = fst v then 1 else 0)"

text \<open>The symbols whose variable of column \<open>j\<close> exceeds one half, in increasing order.\<close>

definition picked :: "(var \<Rightarrow> rat) \<Rightarrow> int \<Rightarrow> nat \<Rightarrow> int list" where
  "picked sol d j = filter (\<lambda>i. sol (i, j) > 1 / 2) (range_int d)"

definition decode :: "mastermind \<Rightarrow> (var \<Rightarrow> rat) \<Rightarrow> int list" where
  "decode m sol = concat (map (picked sol (digits m)) (range_nat (length_m m)))"

text \<open>
  The equality \<open>add_restr\<close> stores for a guess that passes: the variables
  \<open>x[pswd[j]][j]\<close> of the first \<open>n\<close> positions, and the double of the count.
\<close>

definition restr_of :: "int \<Rightarrow> int list \<times> int \<Rightarrow> lin_constraint" where
  "restr_of n g = (map (\<lambda>j. (fst g ! j, j)) (range_nat n), double_of (snd g))"


text \<open>A guess whose first \<open>n\<close> symbols exist and are keys of the dictionary.\<close>

definition well_formed :: "int \<Rightarrow> int \<Rightarrow> int list \<Rightarrow> bool" where
  "well_formed d n pswd = (nat n \<le> length pswd \<and> (\<forall>j<nat n. 0 \<le> pswd ! j \<and> pswd ! j < d))"

subsection \<open>Concrete inputs\<close>

text \<open>The six guesses of the five-digit example, with their counts.\<close>

definition euler_guesses :: "(int list \<times> int) list" where
  "euler_guesses =
     [([9, 0, 3, 4, 2], 2), ([7, 0, 7, 9, 4], 0), ([3, 9, 4, 5, 8], 2),
      ([3, 4, 1, 0, 9], 1), ([5, 1, 5, 4, 5], 2), ([1, 2, 5, 3, 1], 1)]"

text \<open>A run in which \<open>Solve()\<close> returns and every variable reads \<open>0\<close>.\<close>

definition zero_values :: "var \<Rightarrow> rat option" where
  "zero_values v = Some 0"

text \<open>A run in which \<open>Solve()\<close> returns and every read of a solution value raises.\<close>

definition no_values :: "var \<Rightarrow> rat option" where
  "no_values v = None"


section \<open>Auxiliary facts\<close>

subsection \<open>Ranges and the dictionary built by \<open>__init__\<close>\<close>

lemma fold_upd:
  "fold (\<lambda>i D. D(i \<mapsto> f i)) xs D0 i = (if i \<in> set xs then Some (f i) else D0 i)"
  by (induction xs arbitrary: D0) auto

lemma set_range_int: "set (range_int d) = {i. 0 \<le> i \<and> i < d}"
proof (rule set_eqI)
  fix i :: int
  show "i \<in> set (range_int d) \<longleftrightarrow> i \<in> {i. 0 \<le> i \<and> i < d}"
  proof
    assume "i \<in> set (range_int d)"
    then obtain k where "k < nat d" "i = int k" by (auto simp: range_int_def)
    then show "i \<in> {i. 0 \<le> i \<and> i < d}" by auto
  next
    assume "i \<in> {i. 0 \<le> i \<and> i < d}"
    then have "nat i < nat d" "i = int (nat i)" by auto
    then have "i \<in> int ` {0..<nat d}" by (metis atLeast0LessThan image_eqI lessThan_iff)
    then show "i \<in> set (range_int d)" by (simp add: range_int_def)
  qed
qed

lemma distinct_range_int: "distinct (range_int d)"
  by (simp add: range_int_def distinct_map)

lemma set_range_nat: "set (range_nat n) = {j. j < nat n}"
  by (auto simp: range_nat_def)

lemma X_init: "X (init d n) i = (if 0 \<le> i \<and> i < d then Some (new_row n i) else None)"
  by (simp add: init_def fold_upd set_range_int)

lemma length_new_row: "length (new_row n i) = nat n"
  by (simp add: new_row_def range_nat_def)

lemma nth_new_row: "j < nat n \<Longrightarrow> new_row n i ! j = (i, j)"
  by (simp add: new_row_def range_nat_def)

lemma init_fields [simp]:
  "digits (init d n) = d"
  "length_m (init d n) = n"
  "variables (solver (init d n)) = concat (map (new_row n) (range_int d))"
  "constraints (solver (init d n)) = map (\<lambda>j. (map (\<lambda>i. (i, j)) (range_int d), 1)) (range_nat n)"
  by (simp_all add: init_def)

lemma add_constraint_fields [simp]:
  "X (add_constraint c m) = X m"
  "digits (add_constraint c m) = digits m"
  "length_m (add_constraint c m) = length_m m"
  "variables (solver (add_constraint c m)) = variables (solver m)"
  "constraints (solver (add_constraint c m)) = constraints (solver m) @ [c]"
  by (simp_all add: add_constraint_def)

subsection \<open>The conversion of counts\<close>

lemma bit_length_bounds: "0 < k \<Longrightarrow> 2 ^ (bit_length k - 1) \<le> k \<and> k < 2 ^ bit_length k"
proof (induction k rule: bit_length.induct)
  case (1 k)
  show ?case
  proof (cases "k div 2 = 0")
    case True
    with "1.prems" have "k = 1" by (simp add: div_eq_0_iff) 
    then show ?thesis by (simp add: bit_length.simps [of "Suc 0"] bit_length.simps [of 0])
  next
    case False
    then have pos: "0 < k div 2" by simp
    with "1.IH" "1.prems" have ih: "2 ^ (bit_length (k div 2) - 1) \<le> k div 2" "k div 2 < 2 ^ bit_length (k div 2)"
      by simp_all
    have bl: "bit_length k = Suc (bit_length (k div 2))" using "1.prems" by (subst bit_length.simps) simp
    have pos_bl: "0 < bit_length (k div 2)" using pos by (subst bit_length.simps) simp
    then have "(2::nat) ^ (bit_length k - 1) = 2 * 2 ^ (bit_length (k div 2) - 1)"
      unfolding bl by (cases "bit_length (k div 2)") simp_all
    moreover have "(2::nat) ^ bit_length k = 2 * 2 ^ bit_length (k div 2)"
      unfolding bl by simp
    moreover have "k = 2 * (k div 2) + k mod 2" "k mod 2 < 2" by simp_all
    ultimately show ?thesis using ih by linarith
  qed
qed

lemma round_nat_lower:
  assumes "2 ^ k \<le> a" "53 \<le> k"
  shows "2 ^ k \<le> round_nat a"
proof -
  have big: "\<not> a < 2 ^ 53"
  proof -
    have "(2::nat) ^ 53 \<le> 2 ^ k" using assms(2) by (intro power_increasing) simp_all
    with assms(1) show ?thesis by simp
  qed
  have pos: "0 < a" using assms(1) by (metis gr0I not_less power_eq_0_iff zero_neq_numeral le_zero_eq)
  let ?b = "bit_length a"
  from bit_length_bounds [OF pos] have lo: "2 ^ (?b - 1) \<le> a" and hi: "a < 2 ^ ?b" by simp_all
  from assms(1) hi have "(2::nat) ^ k < 2 ^ ?b" by (rule le_less_trans)
  then have kb: "k < ?b" by simp
  let ?e = "?b - 53"
  have split: "?b - 1 = 52 + ?e" using kb assms(2) by simp
  have "2 ^ 52 * 2 ^ ?e \<le> a" using lo unfolding split by (simp add: power_add)
  then have q: "2 ^ 52 \<le> a div 2 ^ ?e" by (simp add: less_eq_div_iff_mult_less_eq)
  have "(2::nat) ^ k \<le> 2 ^ (?b - 1)" using kb by (intro power_increasing) simp_all
  also have "\<dots> = 2 ^ 52 * 2 ^ ?e" unfolding split by (simp add: power_add)
  also have "\<dots> \<le> (a div 2 ^ ?e) * 2 ^ ?e" using q by simp
  also have "\<dots> \<le> round_nat a"
    using big by (simp add: round_nat_def Let_def)
  finally show ?thesis .
qed

lemma round_nat_small: "a < 2 ^ 53 \<Longrightarrow> round_nat a = a"
  by (simp add: round_nat_def)

lemma double_of_exact: "\<bar>h\<bar> < 2 ^ 53 \<Longrightarrow> double_of h = of_int h"
proof -
  assume small: "\<bar>h\<bar> < 2 ^ 53"
  then have "nat \<bar>h\<bar> < 2 ^ 53" by (simp add: nat_less_iff)
  then have "nat (- h) < 2 ^ 53" "nat h < 2 ^ 53" by (simp_all add: nat_less_iff)
  then have "round_nat (nat (- h)) = nat (- h)" "round_nat (nat h) = nat h"
    by (simp_all add: round_nat_small)
  then show ?thesis by (simp add: double_of_def)
qed

lemma not_overflows_small: "\<bar>h\<bar> < 2 ^ 53 \<Longrightarrow> \<not> overflows h"
proof -
  assume "\<bar>h\<bar> < 2 ^ 53"
  then have small: "nat \<bar>h\<bar> < 2 ^ 53" by (simp add: nat_less_iff)
  then have "round_nat (nat \<bar>h\<bar>) = nat \<bar>h\<bar>" by (rule round_nat_small)
  moreover have "(2::nat) ^ 53 \<le> 2 ^ 1024" by (intro power_increasing) simp_all
  ultimately show ?thesis using small by (simp add: overflows_def)
qed

lemma py_float_small: "\<bar>h\<bar> < 2 ^ 53 \<Longrightarrow> py_float h = Inr (of_int h)"
  by (simp add: py_float_def not_overflows_small double_of_exact)

lemma overflows_large: "2 ^ 1024 \<le> \<bar>h\<bar> \<Longrightarrow> overflows h"
proof -
  assume "2 ^ 1024 \<le> \<bar>h\<bar>"
  then have "2 ^ 1024 \<le> nat \<bar>h\<bar>" by (simp add: le_nat_iff)
  then have "2 ^ 1024 \<le> round_nat (nat \<bar>h\<bar>)" by (rule round_nat_lower) simp
  then show ?thesis by (simp add: overflows_def)
qed

lemma double_of_large: "2 ^ 53 \<le> \<bar>h\<bar> \<Longrightarrow> 2 ^ 53 \<le> \<bar>double_of h\<bar>"
proof -
  assume big: "2 ^ 53 \<le> \<bar>h\<bar>"
  then have "2 ^ 53 \<le> nat \<bar>h\<bar>" by (simp add: le_nat_iff)
  then have "2 ^ 53 \<le> round_nat (nat \<bar>h\<bar>)" by (rule round_nat_lower) simp
  then have "(2::rat) ^ 53 \<le> of_nat (round_nat (nat \<bar>h\<bar>))"
    by (metis of_nat_le_iff of_nat_numeral of_nat_power)
  moreover have "\<bar>double_of h\<bar> = of_nat (round_nat (nat \<bar>h\<bar>))"
    by (simp add: double_of_def)
  ultimately show ?thesis by simp
qed

text \<open>A double of fewer than 54 bits that is an integer comes from that integer only.\<close>

lemma double_of_small_inj:
  assumes "double_of h = of_int k" "\<bar>k\<bar> < 2 ^ 53"
  shows "h = k"
proof (cases "\<bar>h\<bar> < 2 ^ 53")
  case True
  with assms(1) show ?thesis by (simp add: double_of_exact)
next
  case False
  then have "2 ^ 53 \<le> \<bar>double_of h\<bar>" by (intro double_of_large) simp
  then have "(2::rat) ^ 53 \<le> of_int \<bar>k\<bar>" by (simp add: assms(1))
  then have "(2::int) ^ 53 \<le> \<bar>k\<bar>" by (metis of_int_le_iff of_int_numeral of_int_power)
  with assms(2) show ?thesis by simp
qed

subsection \<open>The checks of \<open>add_restr\<close>\<close>

lemma restr_vars_append:
  "restr_vars D pswd (js @ ks) =
     (case restr_vars D pswd js of
        Inl e \<Rightarrow> Inl e
      | Inr vs \<Rightarrow> (case restr_vars D pswd ks of Inl e \<Rightarrow> Inl e | Inr ws \<Rightarrow> Inr (vs @ ws)))"
  by (induction js) (auto split: option.splits sum.splits)

lemma restr_vars_init_Inr:
  "\<forall>j\<in>set js. j < nat n \<and> j < length pswd \<and> 0 \<le> pswd ! j \<and> pswd ! j < d \<Longrightarrow>
   restr_vars (X (init d n)) pswd js = Inr (map (\<lambda>j. (pswd ! j, j)) js)"
proof (induction js)
  case Nil
  then show ?case by simp
next
  case (Cons j js)
  then have "X (init d n) (pswd ! j) = Some (new_row n (pswd ! j))"
    by (simp add: X_init)
  with Cons show ?case by (simp add: length_new_row nth_new_row)
qed

lemma restr_vars_init_KeyError:
  "\<forall>j\<in>set js. j < nat n \<and> j < length pswd \<Longrightarrow>
   \<exists>j\<in>set js. pswd ! j < 0 \<or> d \<le> pswd ! j \<Longrightarrow>
   restr_vars (X (init d n)) pswd js = Inl KeyError"
proof (induction js)
  case Nil
  then show ?case by simp
next
  case (Cons j js)
  show ?case
  proof (cases "0 \<le> pswd ! j \<and> pswd ! j < d")
    case False
    then have "X (init d n) (pswd ! j) = None" by (simp add: X_init)
    with Cons.prems show ?thesis by simp
  next
    case True
    with Cons.prems have "\<exists>j\<in>set js. pswd ! j < 0 \<or> d \<le> pswd ! j" by auto
    with Cons have "restr_vars (X (init d n)) pswd js = Inl KeyError" by simp
    moreover have "X (init d n) (pswd ! j) = Some (new_row n (pswd ! j))"
      using True by (simp add: X_init)
    ultimately show ?thesis using Cons.prems by (simp add: length_new_row)
  qed
qed

lemma add_restr_init:
  assumes X: "X m = X (init d n)" and n: "length_m m = n"
  shows "add_restr m pswd hit =
     (if \<exists>j<min (nat n) (length pswd). pswd ! j < 0 \<or> d \<le> pswd ! j then Inl KeyError
      else if length pswd < nat n then Inl IndexError
      else if overflows hit then Inl OverflowError
      else Inr (add_constraint (restr_of n (pswd, hit)) m))"
proof -
  let ?k = "min (nat n) (length pswd)"
  have split: "range_nat n = [0..<?k] @ [?k..<nat n]"
    unfolding range_nat_def by (metis le_add_diff_inverse min.cobounded1 upt_add_eq_append zero_le)
  show ?thesis
  proof (cases "\<exists>j<?k. pswd ! j < 0 \<or> d \<le> pswd ! j")
    case True
    have "restr_vars (X (init d n)) pswd [0..<?k] = Inl KeyError"
      using True by (intro restr_vars_init_KeyError) auto
    then have "restr_vars (X (init d n)) pswd (range_nat n) = Inl KeyError"
      by (simp add: split restr_vars_append)
    with True show ?thesis by (simp add: add_restr_def X n)
  next
    case False
    then have "\<forall>j<?k. 0 \<le> pswd ! j \<and> pswd ! j < d"
      by (meson not_le)
    then have pre: "restr_vars (X (init d n)) pswd [0..<?k] = Inr (map (\<lambda>j. (pswd ! j, j)) [0..<?k])"
      by (intro restr_vars_init_Inr) simp
    show ?thesis
    proof (cases "length pswd < nat n")
      case True
      then have "[?k..<nat n] = length pswd # [Suc (length pswd)..<nat n]"
        by (simp add: upt_conv_Cons min_def)
      then have "restr_vars (X (init d n)) pswd [?k..<nat n] = Inl IndexError"
        by simp
      with pre have "restr_vars (X (init d n)) pswd (range_nat n) = Inl IndexError"
        by (simp add: split restr_vars_append)
      with True False show ?thesis by (simp add: add_restr_def X n)
    next
      case long: False
      then have "?k = nat n" by simp
      with pre have "restr_vars (X (init d n)) pswd (range_nat n) =
          Inr (map (\<lambda>j. (pswd ! j, j)) (range_nat n))"
        by (simp add: range_nat_def)
      with long False show ?thesis by (simp add: add_restr_def X n restr_of_def py_float_def)
    qed
  qed
qed

lemma add_restr_Inr:
  assumes "X m = X (init d n)" "length_m m = n" "add_restr m pswd hit = Inr m'"
  shows "well_formed d n pswd \<and> \<not> overflows hit \<and>
         m' = add_constraint (restr_of n (pswd, hit)) m"
proof -
  note eq = add_restr_init [OF assms(1,2), of pswd hit]
  from assms(3) have a: "\<not> (\<exists>j<min (nat n) (length pswd). pswd ! j < 0 \<or> d \<le> pswd ! j)"
    unfolding eq by (auto split: if_splits)
  from assms(3) a have b: "\<not> length pswd < nat n"
    unfolding eq by (auto split: if_splits)
  from b have "min (nat n) (length pswd) = nat n" by simp
  with a have "\<forall>j<nat n. 0 \<le> pswd ! j \<and> pswd ! j < d" by (metis not_le)
  with b have "well_formed d n pswd" by (simp add: well_formed_def)
  moreover from assms(3) a b have c: "\<not> overflows hit"
    unfolding eq by (auto split: if_splits)
  moreover from assms(3) a b c have "m' = add_constraint (restr_of n (pswd, hit)) m"
    unfolding eq by (auto split: if_splits)
  ultimately show ?thesis by simp
qed

lemma add_restrs_Inr:
  "X m = X (init d n) \<Longrightarrow> length_m m = n \<Longrightarrow> add_restrs m gs = Inr m' \<Longrightarrow>
   X m' = X m \<and> digits m' = digits m \<and> length_m m' = n \<and>
   variables (solver m') = variables (solver m) \<and>
   constraints (solver m') = constraints (solver m) @ map (restr_of n) gs \<and>
   (\<forall>g\<in>set gs. well_formed d n (fst g)) \<and> (\<forall>g\<in>set gs. \<not> overflows (snd g))"
proof (induction gs arbitrary: m)
  case Nil
  then show ?case by simp
next
  case (Cons g gs)
  obtain pswd hit where g: "g = (pswd, hit)" by (cases g)
  from Cons.prems(3) obtain m1
    where m1: "add_restr m pswd hit = Inr m1" and rest: "add_restrs m1 gs = Inr m'"
    by (auto simp: g split: sum.splits)
  from add_restr_Inr [OF Cons.prems(1,2) m1]
  have wf: "well_formed d n pswd" and fits: "\<not> overflows hit"
    and m1_eq: "m1 = add_constraint (restr_of n (pswd, hit)) m"
    by simp_all
  have "X m1 = X (init d n)" "length_m m1 = n" using Cons.prems by (simp_all add: m1_eq)
  from Cons.IH [OF this rest] wf fits show ?case by (simp add: m1_eq g)
qed

text \<open>The engine after \<open>__init__(d, n)\<close> and the guesses \<open>gs\<close>, all of them accepted.\<close>

lemma engine_fields:
  assumes "add_restrs (init d n) gs = Inr m"
  shows "X m = X (init d n)" "digits m = d" "length_m m = n"
    "variables (solver m) = variables (solver (init d n))"
    "constraints (solver m) = constraints (solver (init d n)) @ map (restr_of n) gs"
    "\<forall>g\<in>set gs. well_formed d n (fst g)"
    "\<forall>g\<in>set gs. \<not> overflows (snd g)"
  using add_restrs_Inr [of "init d n" d n gs m] assms by simp_all

subsection \<open>The loops of \<open>new_guess\<close> on an engine\<close>

lemma render_append: "render (a @ b) = render a @ render b"
  by (simp add: render_def)

lemma column_loop_engine:
  "\<forall>i\<in>set is. 0 \<le> i \<and> i < d \<Longrightarrow> j < nat n \<Longrightarrow>
   column_loop (X (init d n)) sv j is s =
     (if \<forall>i\<in>set is. sv (i, j) \<noteq> None
      then Inr (s @ render (filter (\<lambda>i. the (sv (i, j)) > 1 / 2) is))
      else Inl SolverError)"
proof (induction "is" arbitrary: s)
  case Nil
  then show ?case by (simp add: render_def)
next
  case (Cons i "is")
  then have row: "X (init d n) i = Some (new_row n i)" by (simp add: X_init)
  show ?case
  proof (cases "sv (i, j)")
    case None
    with Cons.prems row show ?thesis by (simp add: length_new_row nth_new_row)
  next
    case (Some v)
    with Cons row show ?thesis
      by (simp add: length_new_row nth_new_row render_def)
  qed
qed

lemma position_loop_engine:
  "\<forall>j\<in>set js. j < nat n \<Longrightarrow>
   position_loop (X (init d n)) sv (range_int d) js s =
     (if \<forall>j\<in>set js. \<forall>i\<in>set (range_int d). sv (i, j) \<noteq> None
      then Inr (s @ render (concat (map (\<lambda>j. filter (\<lambda>i. the (sv (i, j)) > 1 / 2) (range_int d)) js)))
      else Inl SolverError)"
proof (induction js arbitrary: s)
  case Nil
  then show ?case by (simp add: render_def)
next
  case (Cons j js)
  have col: "column_loop (X (init d n)) sv j (range_int d) s =
     (if \<forall>i\<in>set (range_int d). sv (i, j) \<noteq> None
      then Inr (s @ render (filter (\<lambda>i. the (sv (i, j)) > 1 / 2) (range_int d)))
      else Inl SolverError)"
    using Cons.prems by (intro column_loop_engine) (simp_all add: set_range_int)
  have rest: "\<And>s'. position_loop (X (init d n)) sv (range_int d) js s' =
     (if \<forall>j\<in>set js. \<forall>i\<in>set (range_int d). sv (i, j) \<noteq> None
      then Inr (s' @ render (concat (map (\<lambda>j. filter (\<lambda>i. the (sv (i, j)) > 1 / 2) (range_int d)) js)))
      else Inl SolverError)"
    using Cons.prems by (intro Cons.IH) simp
  show ?case
    unfolding position_loop.simps col by (simp add: rest render_append)
qed

lemma new_guess_engine:
  assumes X: "X m = X (init d n)" and dims: "digits m = d" "length_m m = n"
  shows "new_guess m (SolveReturns sv) =
     (if \<forall>j<nat n. \<forall>i. 0 \<le> i \<and> i < d \<longrightarrow> sv (i, j) \<noteq> None
      then Inr (PyStr (render (concat
             (map (\<lambda>j. filter (\<lambda>i. the (sv (i, j)) > 1 / 2) (range_int d)) (range_nat n)))))
      else Inr PyFalse)"
proof -
  have "position_loop (X (init d n)) sv (range_int d) (range_nat n) [] =
     (if \<forall>j\<in>set (range_nat n). \<forall>i\<in>set (range_int d). sv (i, j) \<noteq> None
      then Inr ([] @ render (concat
             (map (\<lambda>j. filter (\<lambda>i. the (sv (i, j)) > 1 / 2) (range_int d)) (range_nat n))))
      else Inl SolverError)"
    by (intro position_loop_engine) (simp add: set_range_nat)
  then show ?thesis
    by (simp add: new_guess_def new_guess_try_def X dims set_range_nat set_range_int)
qed

lemma new_guess_reports:
  assumes X: "X m = X (init d n)" and dims: "digits m = d" "length_m m = n"
  shows "new_guess m (reports sol) = Inr (PyStr (render (decode m sol)))"
  unfolding reports_def new_guess_engine [OF assms]
  by (simp add: decode_def picked_def [abs_def] dims)

subsection \<open>Feasible points pick one symbol in every column\<close>

lemma sum_list_zero_one_nonneg:
  "\<forall>x\<in>set xs. f x = 0 \<or> f x = (1::rat) \<Longrightarrow> 0 \<le> sum_list (map f xs)"
  by (induction xs) auto

lemma sum_list_zero_one_zero:
  "\<forall>x\<in>set xs. f x = 0 \<or> f x = (1::rat) \<Longrightarrow> sum_list (map f xs) = 0 \<Longrightarrow>
   \<forall>x\<in>set xs. f x = 0"
proof (induction xs)
  case Nil
  then show ?case by simp
next
  case (Cons x xs)
  then have "0 \<le> sum_list (map f xs)" by (intro sum_list_zero_one_nonneg) simp
  with Cons.prems have "f x = 0" "sum_list (map f xs) = 0" by auto
  with Cons show ?case by simp
qed

lemma one_hot:
  "distinct xs \<Longrightarrow> \<forall>x\<in>set xs. f x = 0 \<or> f x = (1::rat) \<Longrightarrow> sum_list (map f xs) = 1 \<Longrightarrow>
   \<exists>a\<in>set xs. \<forall>x\<in>set xs. f x = (if x = a then 1 else 0)"
proof (induction xs)
  case Nil
  then show ?case by simp
next
  case (Cons x xs)
  show ?case
  proof (cases "f x = 1")
    case True
    with Cons.prems have "sum_list (map f xs) = 0" by simp
    with Cons.prems have "\<forall>y\<in>set xs. f y = 0" by (intro sum_list_zero_one_zero) simp_all
    with True Cons.prems(1) show ?thesis by (intro bexI [of _ x]) auto
  next
    case False
    with Cons.prems have fx: "f x = 0" by simp
    with Cons.prems have "\<exists>a\<in>set xs. \<forall>y\<in>set xs. f y = (if y = a then 1 else 0)"
      by (intro Cons.IH) simp_all
    then obtain a where a: "a \<in> set xs" "\<forall>y\<in>set xs. f y = (if y = a then 1 else 0)" by blast
    with Cons.prems(1) have "x \<noteq> a" by auto
    with a fx show ?thesis by (intro bexI [of _ a]) auto
  qed
qed

lemma filter_one:
  "distinct xs \<Longrightarrow> a \<in> set xs \<Longrightarrow> \<forall>x\<in>set xs. P x \<longleftrightarrow> x = a \<Longrightarrow> filter P xs = [a]"
proof (induction xs)
  case Nil
  then show ?case by simp
next
  case (Cons x xs)
  show ?case
  proof (cases "x = a")
    case True
    with Cons.prems have "\<forall>y\<in>set xs. \<not> P y" by auto
    then have "filter P xs = []" by (simp add: filter_empty_conv)
    with True Cons.prems show ?thesis by simp
  next
    case False
    with Cons show ?thesis by auto
  qed
qed

lemma feasible_column:
  assumes vars: "variables (solver m) = variables (solver (init d n))"
    and cons: "set (constraints (solver (init d n))) \<subseteq> set (constraints (solver m))"
    and feas: "feasible_point m sol" and j: "j < nat n"
  shows "\<exists>a. 0 \<le> a \<and> a < d \<and> picked sol d j = [a] \<and>
             (\<forall>i. 0 \<le> i \<and> i < d \<longrightarrow> sol (i, j) = (if i = a then 1 else 0))"
proof -
  have bin: "sol (i, j) = 0 \<or> sol (i, j) = 1" if "0 \<le> i" "i < d" for i
  proof -
    have "(i, j) \<in> set (variables (solver m))"
      using that j by (auto simp: vars set_range_int new_row_def set_range_nat)
    with feas show ?thesis by (auto simp: feasible_point_def list_all_iff)
  qed
  have "(map (\<lambda>i. (i, j)) (range_int d), 1) \<in> set (constraints (solver m))"
    using cons j by (auto simp: set_range_nat)
  with feas have "holds sol (map (\<lambda>i. (i, j)) (range_int d), 1)"
    by (auto simp: feasible_point_def list_all_iff)
  then have sum: "sum_list (map (\<lambda>i. sol (i, j)) (range_int d)) = 1"
    by (simp add: holds_def comp_def)
  have "\<exists>a\<in>set (range_int d). \<forall>i\<in>set (range_int d). sol (i, j) = (if i = a then 1 else 0)"
    using bin sum by (intro one_hot) (simp_all add: distinct_range_int set_range_int)
  then obtain a where a: "0 \<le> a" "a < d"
    and hot: "\<forall>i. 0 \<le> i \<and> i < d \<longrightarrow> sol (i, j) = (if i = a then 1 else 0)"
    by (auto simp: set_range_int)
  have "picked sol d j = [a]"
    unfolding picked_def using a hot
    by (intro filter_one) (auto simp: distinct_range_int set_range_int)
  with a hot show ?thesis by blast
qed

lemma concat_singletons:
  "\<forall>x\<in>set xs. f x = [g x] \<Longrightarrow> concat (map f xs) = map g xs"
  by (induction xs) auto

lemma decode_feasible:
  assumes vars: "variables (solver m) = variables (solver (init d n))"
    and cons: "set (constraints (solver (init d n))) \<subseteq> set (constraints (solver m))"
    and dims: "digits m = d" "length_m m = n"
    and feas: "feasible_point m sol"
  shows "length (decode m sol) = nat n"
    and "\<forall>j<nat n. 0 \<le> decode m sol ! j \<and> decode m sol ! j < d \<and>
           (\<forall>i. 0 \<le> i \<and> i < d \<longrightarrow> sol (i, j) = (if i = decode m sol ! j then 1 else 0))"
proof -
  have col: "\<exists>a. 0 \<le> a \<and> a < d \<and> picked sol d j = [a] \<and>
             (\<forall>i. 0 \<le> i \<and> i < d \<longrightarrow> sol (i, j) = (if i = a then 1 else 0))" if "j < nat n" for j
    using feasible_column [OF vars cons feas that] .
  then have single: "\<forall>j\<in>set (range_nat n). picked sol d j = [hd (picked sol d j)]"
    by (fastforce simp: set_range_nat)
  have dec: "decode m sol = map (\<lambda>j. hd (picked sol d j)) (range_nat n)"
    unfolding decode_def dims by (rule concat_singletons [OF single])
  then show "length (decode m sol) = nat n" by (simp add: range_nat_def)
  show "\<forall>j<nat n. 0 \<le> decode m sol ! j \<and> decode m sol ! j < d \<and>
           (\<forall>i. 0 \<le> i \<and> i < d \<longrightarrow> sol (i, j) = (if i = decode m sol ! j then 1 else 0))"
  proof (intro allI impI)
    fix j assume j: "j < nat n"
    then have "decode m sol ! j = hd (picked sol d j)" by (simp add: dec range_nat_def)
    with col [OF j] show "0 \<le> decode m sol ! j \<and> decode m sol ! j < d \<and>
           (\<forall>i. 0 \<le> i \<and> i < d \<longrightarrow> sol (i, j) = (if i = decode m sol ! j then 1 else 0))"
      by auto
  qed
qed

subsection \<open>Stored equalities and exact-match counts\<close>

lemma match_count_Nil [simp]: "match_count [] g = 0" "match_count a [] = 0"
  by (simp_all add: match_count_def)

lemma match_count_Cons [simp]:
  "match_count (x # xs) (y # ys) = (if x = y then 1 else 0) + match_count xs ys"
  by (simp add: match_count_def)

lemma sum_list_upt_Suc:
  "sum_list (map f [0..<Suc k]) = f 0 + sum_list (map (\<lambda>j. f (Suc j)) [0..<k])"
proof -
  have "[0..<Suc k] = 0 # map Suc [0..<k]"
    by (simp add: upt_conv_Cons map_Suc_upt del: upt_Suc)
  then show ?thesis by (simp add: comp_def del: upt_Suc)
qed

lemma match_count_sum:
  "length a = k \<Longrightarrow> k \<le> length g \<Longrightarrow>
   (of_int (match_count a g) :: rat) =
     sum_list (map (\<lambda>j. if g ! j = a ! j then 1 else 0) [0..<k])"
proof (induction a arbitrary: g k)
  case Nil
  then show ?case by simp
next
  case (Cons x xs)
  then obtain y ys where g: "g = y # ys" by (cases g) auto
  from Cons.prems obtain k' where k: "k = Suc k'" by (cases k) auto
  have "(of_int (match_count xs ys) :: rat) =
      sum_list (map (\<lambda>j. if ys ! j = xs ! j then 1 else 0) [0..<k'])"
    using Cons.prems by (intro Cons.IH) (simp_all add: g k)
  then show ?case
    unfolding k sum_list_upt_Suc by (auto simp: g)
qed

lemma holds_match_count:
  assumes len: "length a = nat n" and wf: "well_formed d n pswd"
    and hot: "\<forall>j<nat n. \<forall>i. 0 \<le> i \<and> i < d \<longrightarrow> sol (i, j) = (if i = a ! j then 1 else 0)"
  shows "holds sol (restr_of n (pswd, hit)) \<longleftrightarrow> of_int (match_count a pswd) = double_of hit"
proof -
  have "sum_list (map sol (map (\<lambda>j. (pswd ! j, j)) (range_nat n))) =
        sum_list (map (\<lambda>j. if pswd ! j = a ! j then 1 else 0) [0..<nat n])"
    unfolding range_nat_def map_map comp_def
    using wf hot by (intro arg_cong [where f = sum_list] map_cong refl) (simp add: well_formed_def)
  also have "\<dots> = of_int (match_count a pswd)"
    using len wf by (intro match_count_sum [symmetric]) (simp_all add: well_formed_def)
  finally show ?thesis by (simp add: holds_def restr_of_def)
qed

lemma sum_list_indicator:
  "distinct xs \<Longrightarrow> a \<in> set xs \<Longrightarrow> sum_list (map (\<lambda>x. if x = a then 1 else (0::rat)) xs) = 1"
proof (induction xs)
  case Nil
  then show ?case by simp
next
  case (Cons x xs)
  show ?case
  proof (cases "x = a")
    case True
    with Cons.prems have "map (\<lambda>x. if x = a then 1 else (0::rat)) xs = map (\<lambda>x. 0) xs"
      by (intro map_cong) auto
    then have "sum_list (map (\<lambda>x. if x = a then 1 else (0::rat)) xs) = 0"
      by (simp only: sum_list_0)
    with True show ?thesis by simp
  next
    case False
    with Cons show ?thesis by auto
  qed
qed

lemma encode_hot: "j < length a \<Longrightarrow> encode a (i, j) = (if i = a ! j then 1 else 0)"
  by (auto simp: encode_def)

lemma encode_feasible:
  assumes vars: "variables (solver m) = variables (solver (init d n))"
    and cons: "constraints (solver m) = constraints (solver (init d n)) @ map (restr_of n) gs"
    and wf: "\<forall>g\<in>set gs. well_formed d n (fst g)"
    and len: "length a = nat n" and sym: "\<forall>j<nat n. 0 \<le> a ! j \<and> a ! j < d"
    and sat: "\<forall>g\<in>set gs. match_count a (fst g) = snd g"
    and exact: "\<forall>g\<in>set gs. double_of (snd g) = of_int (snd g)"
  shows "feasible_point m (encode a)"
proof -
  have bin: "list_all (\<lambda>v. encode a v = 0 \<or> encode a v = 1) (variables (solver m))"
    by (simp add: list_all_iff encode_def)
  have col: "holds (encode a) (map (\<lambda>i. (i, j)) (range_int d), 1)" if "j < nat n" for j
  proof -
    have "map (encode a) (map (\<lambda>i. (i, j)) (range_int d)) =
        map (\<lambda>i. if i = a ! j then 1 else 0) (range_int d)"
      using that len by (simp add: comp_def encode_hot)
    moreover have "a ! j \<in> set (range_int d)" using sym that by (simp add: set_range_int)
    then have "sum_list (map (\<lambda>i. if i = a ! j then 1 else (0::rat)) (range_int d)) = 1"
      by (intro sum_list_indicator distinct_range_int)
    ultimately show ?thesis by (simp only: holds_def fst_conv snd_conv of_int_1)
  qed
  have gs: "holds (encode a) (restr_of n g)" if "g \<in> set gs" for g
  proof -
    have "holds (encode a) (restr_of n (fst g, snd g)) \<longleftrightarrow>
        of_int (match_count a (fst g)) = double_of (snd g)"
      using len wf that by (intro holds_match_count [where d = d]) (simp_all add: encode_hot)
    with sat exact that show ?thesis by simp
  qed
  have "list_all (holds (encode a)) (constraints (solver m))"
    using col gs by (auto simp: cons list_all_iff set_range_nat)
  with bin show ?thesis by (simp add: feasible_point_def)
qed

lemma decode_encode:
  assumes dims: "digits m = d" "length_m m = n"
    and len: "length a = nat n" and sym: "\<forall>j<nat n. 0 \<le> a ! j \<and> a ! j < d"
  shows "decode m (encode a) = a"
proof -
  have "picked (encode a) d j = [a ! j]" if "j < nat n" for j
    unfolding picked_def using that len sym
    by (intro filter_one) (auto simp: distinct_range_int set_range_int encode_hot)
  then have "\<forall>j\<in>set (range_nat n). picked (encode a) d j = [a ! j]" by (simp add: set_range_nat)
  then have "decode m (encode a) = map (\<lambda>j. a ! j) (range_nat n)"
    unfolding decode_def dims by (rule concat_singletons)
  also have "\<dots> = a" unfolding range_nat_def len [symmetric] by (rule map_nth)
  finally show ?thesis .
qed

subsection \<open>Engines: what a feasible point decodes to, and which points are feasible\<close>

lemma engine_sound:
  assumes eng: "add_restrs (init d n) gs = Inr m" and feas: "feasible_point m sol"
  shows "length (decode m sol) = nat n"
    and "\<forall>j<nat n. 0 \<le> decode m sol ! j \<and> decode m sol ! j < d \<and>
           (\<forall>i. 0 \<le> i \<and> i < d \<longrightarrow> sol (i, j) = (if i = decode m sol ! j then 1 else 0))"
    and "\<forall>g\<in>set gs. of_int (match_count (decode m sol) (fst g)) = double_of (snd g)"
proof -
  note f = engine_fields [OF eng]
  have sub: "set (constraints (solver (init d n))) \<subseteq> set (constraints (solver m))"
    by (simp only: f(5) set_append Un_upper1)
  show len: "length (decode m sol) = nat n"
    by (rule decode_feasible(1) [OF f(4) sub f(2,3) feas])
  show hot: "\<forall>j<nat n. 0 \<le> decode m sol ! j \<and> decode m sol ! j < d \<and>
           (\<forall>i. 0 \<le> i \<and> i < d \<longrightarrow> sol (i, j) = (if i = decode m sol ! j then 1 else 0))"
    by (rule decode_feasible(2) [OF f(4) sub f(2,3) feas])
  show "\<forall>g\<in>set gs. of_int (match_count (decode m sol) (fst g)) = double_of (snd g)"
  proof
    fix g assume g: "g \<in> set gs"
    then have "restr_of n g \<in> set (constraints (solver m))" by (simp add: f(5))
    with feas have "holds sol (restr_of n (fst g, snd g))"
      by (auto simp: feasible_point_def list_all_iff)
    moreover have "well_formed d n (fst g)" using f(6) g by blast
    ultimately show "of_int (match_count (decode m sol) (fst g)) = double_of (snd g)"
      using holds_match_count [OF len, of d "fst g" sol "snd g"] hot by blast
  qed
qed

text \<open>
  With fewer than \<open>2 ^ 53\<close> positions the counts that matter are kept exactly: a
  count of matches is at most \<open>n\<close>.
\<close>

lemma match_count_bounds: "0 \<le> match_count a g \<and> match_count a g \<le> int (length a)"
proof -
  have "length (filter (\<lambda>(x, y). x = y) (zip a g)) \<le> length (zip a g)"
    by (rule length_filter_le)
  then show ?thesis by (simp add: match_count_def)
qed

lemma small_count:
  assumes "n < 2 ^ 53" "length a = nat n"
  shows "\<bar>match_count a g\<bar> < 2 ^ 53"
proof -
  from match_count_bounds [of a g] assms(2)
  have "0 \<le> match_count a g" "match_count a g \<le> int (nat n)" by simp_all
  with assms(1) show ?thesis by (cases "0 \<le> n") simp_all
qed

lemma engine_sound_counts:
  assumes eng: "add_restrs (init d n) gs = Inr m" and feas: "feasible_point m sol"
    and n: "n < 2 ^ 53"
  shows "\<forall>g\<in>set gs. match_count (decode m sol) (fst g) = snd g"
proof
  fix g assume "g \<in> set gs"
  with engine_sound(3) [OF eng feas]
  have "double_of (snd g) = of_int (match_count (decode m sol) (fst g))" by simp
  moreover have "\<bar>match_count (decode m sol) (fst g)\<bar> < 2 ^ 53"
    using n engine_sound(1) [OF eng feas] by (rule small_count)
  ultimately show "match_count (decode m sol) (fst g) = snd g"
    by (rule double_of_small_inj [symmetric])
qed

lemma engine_complete:
  assumes eng: "add_restrs (init d n) gs = Inr m"
    and len: "length a = nat n" and sym: "\<forall>j<nat n. 0 \<le> a ! j \<and> a ! j < d"
    and sat: "\<forall>g\<in>set gs. match_count a (fst g) = snd g"
    and small: "gs = [] \<or> n < 2 ^ 53"
  shows "feasible_point m (encode a)" and "decode m (encode a) = a"
proof -
  note f = engine_fields [OF eng]
  have exact: "\<forall>g\<in>set gs. double_of (snd g) = of_int (snd g)"
  proof
    fix g assume g: "g \<in> set gs"
    with small have "n < 2 ^ 53" by auto
    then have "\<bar>match_count a (fst g)\<bar> < 2 ^ 53" using len by (rule small_count)
    with sat g show "double_of (snd g) = of_int (snd g)" by (simp add: double_of_exact)
  qed
  show "feasible_point m (encode a)"
    by (rule encode_feasible [OF f(4,5,6) len sym sat exact])
  show "decode m (encode a) = a"
    by (rule decode_encode [OF f(2,3) len sym])
qed

lemma engine_new_guess:
  assumes eng: "add_restrs (init d n) gs = Inr m"
  shows "new_guess m (reports sol) = Inr (PyStr (render (decode m sol)))"
  using engine_fields(1,2,3) [OF eng] by (rule new_guess_reports)

subsection \<open>The five-digit example has one solution\<close>

text \<open>
  The six counts add up to eight, and the positions can give at most 2, 1, 2, 2 and 1
  of them: every position has to give its most, which fixes the symbols 3, 5 and 4 of
  positions 0, 2 and 3; the first and the third guess then fix the other two.
\<close>

lemma euler_unique:
  assumes "length a = 5" and "\<forall>g\<in>set euler_guesses. match_count a (fst g) = snd g"
  shows "a = [3, 9, 5, 4, 2]"
proof -
  from assms(1) obtain a0 a1 a2 a3 a4 where a: "a = [a0, a1, a2, a3, a4]"
    by (auto simp: length_Suc_conv numeral_eq_Suc)
  from assms(2) have c:
    "(if a0 = 9 then 1 else 0) + ((if a1 = 0 then 1 else 0) + ((if a2 = 3 then 1 else 0) +
       ((if a3 = 4 then 1 else 0) + (if a4 = 2 then 1 else 0)))) = (2::int)"
    "(if a0 = 7 then 1 else 0) + ((if a1 = 0 then 1 else 0) + ((if a2 = 7 then 1 else 0) +
       ((if a3 = 9 then 1 else 0) + (if a4 = 4 then 1 else 0)))) = (0::int)"
    "(if a0 = 3 then 1 else 0) + ((if a1 = 9 then 1 else 0) + ((if a2 = 4 then 1 else 0) +
       ((if a3 = 5 then 1 else 0) + (if a4 = 8 then 1 else 0)))) = (2::int)"
    "(if a0 = 3 then 1 else 0) + ((if a1 = 4 then 1 else 0) + ((if a2 = 1 then 1 else 0) +
       ((if a3 = 0 then 1 else 0) + (if a4 = 9 then 1 else 0)))) = (1::int)"
    "(if a0 = 5 then 1 else 0) + ((if a1 = 1 then 1 else 0) + ((if a2 = 5 then 1 else 0) +
       ((if a3 = 4 then 1 else 0) + (if a4 = 5 then 1 else 0)))) = (2::int)"
    "(if a0 = 1 then 1 else 0) + ((if a1 = 2 then 1 else 0) + ((if a2 = 5 then 1 else 0) +
       ((if a3 = 3 then 1 else 0) + (if a4 = 1 then 1 else 0)))) = (1::int)"
    by (simp_all add: euler_guesses_def a)
  have p0: "(if a0 = 9 then 1 else 0) + (if a0 = 3 then 1 else 0) + (if a0 = 3 then 1 else 0) +
      (if a0 = 5 then 1 else 0) + (if a0 = 1 then 1 else 0) \<le> (2::int)"
    by simp
  have p1: "(if a1 = 0 then 1 else 0) + (if a1 = 9 then 1 else 0) + (if a1 = 4 then 1 else 0) +
      (if a1 = 1 then 1 else 0) + (if a1 = 2 then 1 else 0) \<le> (1::int)"
    by simp
  have p2: "(if a2 = 3 then 1 else 0) + (if a2 = 4 then 1 else 0) + (if a2 = 1 then 1 else 0) +
      (if a2 = 5 then 1 else 0) + (if a2 = 5 then 1 else 0) \<le> (2::int)"
    by simp
  have p3: "(if a3 = 4 then 1 else 0) + (if a3 = 5 then 1 else 0) + (if a3 = 0 then 1 else 0) +
      (if a3 = 4 then 1 else 0) + (if a3 = 3 then 1 else 0) \<le> (2::int)"
    by simp
  have p4: "(if a4 = 2 then 1 else 0) + (if a4 = 8 then 1 else 0) + (if a4 = 9 then 1 else 0) +
      (if a4 = 5 then 1 else 0) + (if a4 = 1 then 1 else 0) \<le> (1::int)"
    by simp
  have a0: "a0 = 3"
  proof (rule ccontr)
    assume "a0 \<noteq> 3"
    then have "(if a0 = 9 then 1 else 0) + (if a0 = 3 then 1 else 0) + (if a0 = 3 then 1 else 0) +
        (if a0 = 5 then 1 else 0) + (if a0 = 1 then 1 else 0) \<le> (1::int)"
      by simp
    with c p1 p2 p3 p4 show False by linarith
  qed
  have a2: "a2 = 5"
  proof (rule ccontr)
    assume "a2 \<noteq> 5"
    then have "(if a2 = 3 then 1 else 0) + (if a2 = 4 then 1 else 0) + (if a2 = 1 then 1 else 0) +
        (if a2 = 5 then 1 else 0) + (if a2 = 5 then 1 else 0) \<le> (1::int)"
      by simp
    with c p0 p1 p3 p4 show False by linarith
  qed
  have a3: "a3 = 4"
  proof (rule ccontr)
    assume "a3 \<noteq> 4"
    then have "(if a3 = 4 then 1 else 0) + (if a3 = 5 then 1 else 0) + (if a3 = 0 then 1 else 0) +
        (if a3 = 4 then 1 else 0) + (if a3 = 3 then 1 else 0) \<le> (1::int)"
      by simp
    with c p0 p1 p2 p4 show False by linarith
  qed
  from c(2) have a1_0: "a1 \<noteq> 0" by (auto split: if_splits)
  from c(1) a1_0 have a4: "a4 = 2" by (simp add: a0 a2 a3 split: if_splits)
  from c(3) have a1: "a1 = 9" by (simp add: a0 a2 a3 a4 split: if_splits)
  show ?thesis by (simp add: a a0 a1 a2 a3 a4)
qed

subsection \<open>The text of a suggestion names one assignment\<close>

text \<open>
  The decimal numerals of \<open>str\<close> contain no blank and determine their number, so
  that the blank-separated text of a suggestion determines the list of symbols.
\<close>

lemma digit_chars_nonempty: "digit_chars k \<noteq> []"
  by (subst digit_chars.simps) simp

lemma digit_nth_mem: "d < 10 \<Longrightarrow> ''0123456789'' ! d \<in> set ''0123456789''"
  by (rule nth_mem) simp

lemma digit_chars_set: "set (digit_chars k) \<subseteq> set ''0123456789''"
proof (induction k rule: digit_chars.induct)
  case (1 k)
  show ?case
  proof (cases "k < 10")
    case True
    then have "digit_chars k = [''0123456789'' ! k]" by (subst digit_chars.simps) simp
    with digit_nth_mem [OF True] show ?thesis by simp
  next
    case False
    then have "digit_chars k = digit_chars (k div 10) @ [''0123456789'' ! (k mod 10)]"
      by (subst digit_chars.simps) simp
    moreover have "''0123456789'' ! (k mod 10) \<in> set ''0123456789''"
      by (rule digit_nth_mem) simp
    ultimately show ?thesis using 1 False by simp
  qed
qed

lemma digit_nth_inj:
  assumes "d < 10" "e < 10" "''0123456789'' ! d = ''0123456789'' ! e"
  shows "d = e"
proof -
  have "distinct ''0123456789''" by simp
  with assms show ?thesis by (simp add: nth_eq_iff_index_eq)
qed

lemma digit_chars_inj: "digit_chars k = digit_chars l \<Longrightarrow> k = l"
proof (induction k arbitrary: l rule: digit_chars.induct)
  case (1 k)
  show ?case
  proof (cases "k < 10")
    case small: True
    then have k: "digit_chars k = [''0123456789'' ! k]" by (subst digit_chars.simps) simp
    show ?thesis
    proof (cases "l < 10")
      case True
      then have "digit_chars l = [''0123456789'' ! l]" by (subst digit_chars.simps) simp
      with k "1.prems" have "''0123456789'' ! k = ''0123456789'' ! l" by simp
      with small True show ?thesis by (rule digit_nth_inj)
    next
      case False
      then have "digit_chars l = digit_chars (l div 10) @ [''0123456789'' ! (l mod 10)]"
        by (subst digit_chars.simps) simp
      with k "1.prems" have "digit_chars (l div 10) = []" by simp
      with digit_chars_nonempty show ?thesis by blast
    qed
  next
    case big: False
    then have k: "digit_chars k = digit_chars (k div 10) @ [''0123456789'' ! (k mod 10)]"
      by (subst digit_chars.simps) simp
    show ?thesis
    proof (cases "l < 10")
      case True
      then have "digit_chars l = [''0123456789'' ! l]" by (subst digit_chars.simps) simp
      with k "1.prems" have "digit_chars (k div 10) = []" by simp
      with digit_chars_nonempty show ?thesis by blast
    next
      case False
      then have "digit_chars l = digit_chars (l div 10) @ [''0123456789'' ! (l mod 10)]"
        by (subst digit_chars.simps) simp
      with k "1.prems" have a: "digit_chars (k div 10) = digit_chars (l div 10)"
        and b: "''0123456789'' ! (k mod 10) = ''0123456789'' ! (l mod 10)"
        by simp_all
      from "1.IH" [OF big a] have "k div 10 = l div 10" .
      moreover have "k mod 10 = l mod 10" using b by (intro digit_nth_inj) simp_all
      ultimately show ?thesis by (metis div_mult_mod_eq)
    qed
  qed
qed

lemma str_inj: "str i = str j \<Longrightarrow> i = j"
proof -
  assume eq: "str i = str j"
  have no_minus: "CHR ''-'' \<notin> set (digit_chars k)" for k
    using digit_chars_set [of k] by auto
  have hd_digit: "hd (digit_chars k) \<noteq> CHR ''-''" for k
    using no_minus [of k] digit_chars_nonempty [of k] by (cases "digit_chars k") auto
  show ?thesis
  proof (cases "i < 0")
    case True
    show ?thesis
    proof (cases "j < 0")
      case j: True
      with True eq have "digit_chars (nat (- i)) = digit_chars (nat (- j))" by (simp add: str_def)
      then have "nat (- i) = nat (- j)" by (rule digit_chars_inj)
      with True j show ?thesis by simp
    next
      case False
      with True eq have "CHR ''-'' # digit_chars (nat (- i)) = digit_chars (nat j)" by (simp add: str_def)
      then have "hd (digit_chars (nat j)) = CHR ''-''" by (metis list.sel(1))
      with hd_digit show ?thesis by blast
    qed
  next
    case False
    show ?thesis
    proof (cases "j < 0")
      case True
      with False eq have "digit_chars (nat i) = CHR ''-'' # digit_chars (nat (- j))" by (simp add: str_def)
      then have "hd (digit_chars (nat i)) = CHR ''-''" by (metis list.sel(1))
      with hd_digit show ?thesis by blast
    next
      case j: False
      with False eq have "digit_chars (nat i) = digit_chars (nat j)" by (simp add: str_def)
      then have "nat i = nat j" by (rule digit_chars_inj)
      with False j show ?thesis by simp
    qed
  qed
qed

lemma str_no_blank: "CHR '' '' \<notin> set (str i)"
proof -
  have "CHR '' '' \<notin> set (digit_chars k)" for k
    using digit_chars_set [of k] by auto
  then show ?thesis by (simp add: str_def)
qed

lemma render_Cons: "render (x # xs) = CHR '' '' # str x @ render xs"
  by (simp add: render_def)

lemma render_blank: "render xs = [] \<or> hd (render xs) = CHR '' ''"
  by (cases xs) (simp_all add: render_def)

lemma takeWhile_word:
  "CHR '' '' \<notin> set w \<Longrightarrow> r = [] \<or> hd r = CHR '' '' \<Longrightarrow>
   takeWhile (\<lambda>c. c \<noteq> CHR '' '') (w @ r) = w \<and> dropWhile (\<lambda>c. c \<noteq> CHR '' '') (w @ r) = r"
  by (induction w) (auto simp: takeWhile_eq_Nil_iff dropWhile_eq_self_iff neq_Nil_conv)

lemma render_inj: "render a = render b \<Longrightarrow> a = b"
proof (induction a arbitrary: b)
  case Nil
  then show ?case by (cases b) (simp_all add: render_def)
next
  case (Cons x xs)
  then obtain y ys where b: "b = y # ys" by (cases b) (simp_all add: render_def)
  from Cons.prems have eq: "str x @ render xs = str y @ render ys"
    by (simp add: b render_Cons)
  have "takeWhile (\<lambda>c. c \<noteq> CHR '' '') (str x @ render xs) = str x"
    "dropWhile (\<lambda>c. c \<noteq> CHR '' '') (str x @ render xs) = render xs"
    using takeWhile_word [OF str_no_blank render_blank, of x xs] by simp_all
  moreover have "takeWhile (\<lambda>c. c \<noteq> CHR '' '') (str y @ render ys) = str y"
    "dropWhile (\<lambda>c. c \<noteq> CHR '' '') (str y @ render ys) = render ys"
    using takeWhile_word [OF str_no_blank render_blank, of y ys] by simp_all
  ultimately have "str x = str y" "render xs = render ys" using eq by simp_all
  with Cons.IH str_inj show ?case by (simp add: b)
qed

subsection \<open>Further facts about engines\<close>

lemma feasible_init:
  assumes eng: "add_restrs (init d n) gs = Inr m" and feas: "feasible_point m sol"
  shows "feasible_point (init d n) sol"
proof -
  note f = engine_fields(4,5) [OF eng]
  from feas have "list_all (\<lambda>v. sol v = 0 \<or> sol v = 1) (variables (solver (init d n)))"
    unfolding feasible_point_def f by (rule conjunct1)
  moreover from feas have "list_all (holds sol) (constraints (solver (init d n)) @ map (restr_of n) gs)"
    unfolding feasible_point_def f by (rule conjunct2)
  then have "list_all (holds sol) (constraints (solver (init d n)))"
    by (simp only: list_all_append)
  ultimately show ?thesis unfolding feasible_point_def by (rule conjI)
qed

lemma decode_init:
  assumes eng: "add_restrs (init d n) gs = Inr m"
  shows "decode m sol = decode (init d n) sol"
  by (simp add: decode_def engine_fields(2,3) [OF eng])

lemma add_restrs_snoc:
  "add_restrs m gs = Inr m1 \<Longrightarrow> add_restr m1 pswd hit = Inr m2 \<Longrightarrow>
   add_restrs m (gs @ [(pswd, hit)]) = Inr m2"
proof (induction gs arbitrary: m)
  case Nil
  then show ?case by simp
next
  case (Cons g gs)
  obtain p h where g: "g = (p, h)" by (cases g)
  from Cons.prems(1) obtain m0 where "add_restr m p h = Inr m0" "add_restrs m0 gs = Inr m1"
    by (auto simp: g split: sum.splits)
  with Cons.IH [OF _ Cons.prems(2)] show ?case by (simp add: g)
qed

lemma restr_vars_take:
  "\<forall>j\<in>set js. j < k \<Longrightarrow> restr_vars D (take k pswd) js = restr_vars D pswd js"
  by (induction js) (auto split: option.splits sum.splits)

lemma add_restrs_total:
  "X m = X (init d n) \<Longrightarrow> length_m m = n \<Longrightarrow>
   \<forall>g\<in>set gs. well_formed d n (fst g) \<and> \<not> overflows (snd g) \<Longrightarrow>
   \<exists>m'. add_restrs m gs = Inr m'"
proof (induction gs arbitrary: m)
  case Nil
  then show ?case by simp
next
  case (Cons g gs)
  obtain pswd hit where g: "g = (pswd, hit)" by (cases g)
  from Cons.prems(3) have wf: "nat n \<le> length pswd" "\<forall>j<nat n. 0 \<le> pswd ! j \<and> pswd ! j < d"
    and fits: "\<not> overflows hit"
    by (simp_all add: g well_formed_def)
  then have "\<not> (\<exists>j<min (nat n) (length pswd). pswd ! j < 0 \<or> d \<le> pswd ! j)"
    by (auto simp: not_less)
  with wf(1) fits have step: "add_restr m pswd hit = Inr (add_constraint (restr_of n (pswd, hit)) m)"
    unfolding add_restr_init [OF Cons.prems(1,2)] by simp
  have "\<exists>m'. add_restrs (add_constraint (restr_of n (pswd, hit)) m) gs = Inr m'"
    using Cons.prems by (intro Cons.IH) simp_all
  with step show ?case by (simp add: g)
qed

lemma euler_well_formed:
  "\<forall>g\<in>set euler_guesses. well_formed 10 5 (fst g) \<and> \<not> overflows (snd g)"
  by (simp add: euler_guesses_def well_formed_def eval_nat_numeral All_less_Suc not_overflows_small)

lemma euler_solution: "\<forall>g\<in>set euler_guesses. match_count [3, 9, 5, 4, 2] (fst g) = snd g"
  by (simp add: euler_guesses_def)

subsection \<open>Evaluating the definitions on concrete inputs\<close>

lemmas eval_defs = add_restr_def restr_of_def range_nat_def range_int_def new_row_def X_init
  feasible_point_def holds_def encode_def decode_def picked_def render_def str_def
  digit_chars.simps upt_rec py_float_small double_of_exact

section \<open>Properties of the engine\<close>

text \<open>
  In what follows an engine is a value \<open>m\<close> with \<open>add_restrs (init d n) gs = Inr m\<close>:
  the object after \<open>Mastermind(d, n)\<close> and the calls \<open>add_restr\<close> of the guesses
  \<open>gs\<close>, none of which raised. The search itself is the library's: \<open>new_guess\<close> is
  studied for the runs \<open>reports sol\<close> in which the solver returns a point \<open>sol\<close>, and
  \<open>feasible_point m sol\<close> says that this point is one the solver may report as a
  solution of the model it was given.
\<close>

subsection \<open>What holds for the solutions the solver reports\<close>

text \<open>
  For a report that is a solution of the stored model, the suggestion names an
  assignment of \<open>n\<close> symbols, and no other, whose count of matches with every stored
  guess is the count stored with it (engines of fewer than \<open>2 ^ 53\<close> positions keep
  these counts exactly). For contradictory guesses there is no such report.
\<close>

lemma feasible_report_satisfies_stored_guesses:
  assumes "add_restrs (init d n) gs = Inr m" and "feasible_point m sol" and "n < 2 ^ 53"
  shows "new_guess m (reports sol) = Inr (PyStr (render (decode m sol))) \<and>
         length (decode m sol) = nat n \<and>
         (\<forall>g\<in>set gs. match_count (decode m sol) (fst g) = snd g) \<and>
         (\<forall>a. new_guess m (reports sol) = Inr (PyStr (render a)) \<longrightarrow> a = decode m sol)"
proof -
  have ans: "new_guess m (reports sol) = Inr (PyStr (render (decode m sol)))"
    by (rule engine_new_guess [OF assms(1)])
  have "a = decode m sol" if "new_guess m (reports sol) = Inr (PyStr (render a))" for a
    using that ans render_inj by simp
  with ans engine_sound(1) [OF assms(1,2)] engine_sound_counts [OF assms] show ?thesis by blast
qed

lemma contradictory_guesses_no_solution:
  assumes eng: "add_restrs (init d n) gs = Inr m" and n: "n < 2 ^ 53"
    and contra: "\<forall>a. length a = nat n \<and> (\<forall>j<nat n. 0 \<le> a ! j \<and> a ! j < d) \<longrightarrow>
                   (\<exists>g\<in>set gs. match_count a (fst g) \<noteq> snd g)"
  shows "\<not> feasible_point m sol"
proof
  assume feas: "feasible_point m sol"
  from engine_sound(1,2) [OF eng feas]
  have "length (decode m sol) = nat n \<and> (\<forall>j<nat n. 0 \<le> decode m sol ! j \<and> decode m sol ! j < d)"
    by simp
  with contra have "\<exists>g\<in>set gs. match_count (decode m sol) (fst g) \<noteq> snd g" by blast
  with engine_sound_counts [OF eng feas n] show False by blast
qed

subsection \<open>C1\<close>

text \<open>
  C1 does not hold of the code. \<open>new_guess\<close> never reads the status of \<open>Solve()\<close>
  and checks nothing: when the stored guesses are contradictory the solver returns
  without raising, every solution value reads \<open>0\<close>, and the method returns the
  string built from these values. With \<open>d = 2\<close>, \<open>n = 1\<close> and the guess \<open>[0]\<close>
  stored with the counts \<open>1\<close> and \<open>0\<close> the result is the empty string, not \<open>False\<close>:
  read as an assignment it has no symbol instead of one, and it matches the guess
  \<open>[0]\<close> in no position although the count \<open>1\<close> is stored with it.
\<close>

theorem contradictory_guesses_get_a_string:
  "add_restrs (init 2 1) [([0], 1), ([0], 0)] = Inr (add_constraint (restr_of 1 ([0], 0)) (add_constraint (restr_of 1 ([0], 1)) (init 2 1))) \<and>
   new_guess (add_constraint (restr_of 1 ([0], 0)) (add_constraint (restr_of 1 ([0], 1)) (init 2 1))) (SolveReturns zero_values) = Inr (PyStr (render [])) \<and>
   length ([] :: int list) \<noteq> nat 1 \<and>
   match_count [] [0] \<noteq> 1"
proof -
  have eng: "add_restrs (init 2 1) [([0], 1), ([0], 0)] = Inr (add_constraint (restr_of 1 ([0], 0)) (add_constraint (restr_of 1 ([0], 1)) (init 2 1)))"
    by (simp add: eval_defs)
  have zeros: "new_guess (add_constraint (restr_of 1 ([0], 0)) (add_constraint (restr_of 1 ([0], 1)) (init 2 1))) (SolveReturns zero_values) = Inr (PyStr (render []))"
    unfolding new_guess_engine [OF engine_fields(1,2,3) [OF eng]]
    by (simp add: zero_values_def render_def)
  show ?thesis by (intro conjI eng zeros) simp_all
qed

subsection \<open>C10\<close>

text \<open>
  C10: every 0/1 solution of an engine's model satisfies the equalities installed by
  \<open>__init__\<close>, and for every 0/1 point that satisfies those the suggestion consists
  of exactly \<open>n\<close> symbols, one for each position: the one symbol of \<open>[0, d-1]\<close>
  whose variable of that position is \<open>1\<close>.
\<close>

theorem suggestion_one_symbol_per_position:
  assumes eng: "add_restrs (init d n) gs = Inr m"
  shows "(feasible_point m sol \<longrightarrow> feasible_point (init d n) sol) \<and>
         (feasible_point (init d n) sol \<longrightarrow>
           (\<exists>a. new_guess m (reports sol) = Inr (PyStr (render a)) \<and> length a = nat n \<and>
                (\<forall>j<nat n. 0 \<le> a ! j \<and> a ! j < d \<and> sol (a ! j, j) = 1 \<and>
                   (\<forall>i. 0 \<le> i \<and> i < d \<and> i \<noteq> a ! j \<longrightarrow> sol (i, j) = 0))))"
proof (intro conjI impI)
  assume "feasible_point m sol"
  with eng show "feasible_point (init d n) sol" by (rule feasible_init)
next
  assume feas: "feasible_point (init d n) sol"
  have fresh: "add_restrs (init d n) [] = Inr (init d n)" by simp
  let ?a = "decode (init d n) sol"
  have "new_guess m (reports sol) = Inr (PyStr (render ?a))"
    using engine_new_guess [OF eng, of sol] by (simp add: decode_init [OF eng])
  moreover have "length ?a = nat n" by (rule engine_sound(1) [OF fresh feas])
  moreover have "\<forall>j<nat n. 0 \<le> ?a ! j \<and> ?a ! j < d \<and> sol (?a ! j, j) = 1 \<and>
                   (\<forall>i. 0 \<le> i \<and> i < d \<and> i \<noteq> ?a ! j \<longrightarrow> sol (i, j) = 0)"
    using engine_sound(2) [OF fresh feas] by auto
  ultimately show "\<exists>a. new_guess m (reports sol) = Inr (PyStr (render a)) \<and> length a = nat n \<and>
                (\<forall>j<nat n. 0 \<le> a ! j \<and> a ! j < d \<and> sol (a ! j, j) = 1 \<and>
                   (\<forall>i. 0 \<le> i \<and> i < d \<and> i \<noteq> a ! j \<longrightarrow> sol (i, j) = 0))"
    by blast
qed

theorem suggestion_one_symbol_per_position_witness:
  "add_restrs (init 2 2) [([0, 0], 1)] = Inr (add_constraint (restr_of 2 ([0, 0], 1)) (init 2 2)) \<and>
   feasible_point (add_constraint (restr_of 2 ([0, 0], 1)) (init 2 2)) (encode [1, 0]) \<and>
   feasible_point (init 2 2) (encode [1, 0]) \<and>
   (\<exists>a. new_guess (add_constraint (restr_of 2 ([0, 0], 1)) (init 2 2)) (reports (encode [1, 0])) =
          Inr (PyStr (render a)) \<and> length a = 2)"
proof -
  have eng: "add_restrs (init 2 2) [([0, 0], 1)] =
      Inr (add_constraint (restr_of 2 ([0, 0], 1)) (init 2 2))"
    by (simp add: eval_defs)
  have feas: "feasible_point (add_constraint (restr_of 2 ([0, 0], 1)) (init 2 2)) (encode [1, 0])"
    by (simp add: eval_defs)
  note inst = suggestion_one_symbol_per_position [OF eng, of "encode [1, 0]"]
  from inst feas have fresh: "feasible_point (init 2 2) (encode [1, 0])" by blast
  with inst have "\<exists>a. new_guess (add_constraint (restr_of 2 ([0, 0], 1)) (init 2 2))
      (reports (encode [1, 0])) = Inr (PyStr (render a)) \<and> length a = nat 2"
    by blast
  with eng feas fresh show ?thesis by simp
qed

subsection \<open>C7\<close>

text \<open>
  C7: when the solver has found a solution of an engine and a guess is added whose
  count the suggested assignment itself satisfies, the same point is still a
  solution of the new model, \<open>new_guess\<close> answers it with the same suggestion, and
  every solution of the new model is answered with a suggestion of \<open>n\<close> symbols
  that satisfies the new guess and the old ones. The engine has fewer than
  \<open>2 ^ 53\<close> positions, so that the counts up to \<open>n\<close> are stored exactly.
\<close>

theorem satisfied_constraint_keeps_feasible:
  assumes eng: "add_restrs (init d n) gs = Inr m" and feas: "feasible_point m sol"
    and add: "add_restr m pswd hit = Inr m'"
    and sat: "match_count (decode m sol) pswd = hit"
    and n: "n < 2 ^ 53"
  shows "feasible_point m' sol \<and>
         new_guess m' (reports sol) = Inr (PyStr (render (decode m sol))) \<and>
         (\<forall>sol'. feasible_point m' sol' \<longrightarrow>
            (\<exists>a. new_guess m' (reports sol') = Inr (PyStr (render a)) \<and> length a = nat n \<and>
                 match_count a pswd = hit \<and> (\<forall>g\<in>set gs. match_count a (fst g) = snd g)))"
proof -
  note f = engine_fields [OF eng]
  from add_restr_Inr [OF f(1,3) add]
  have wf: "well_formed d n pswd" and m': "m' = add_constraint (restr_of n (pswd, hit)) m"
    by simp_all
  have "\<bar>match_count (decode m sol) pswd\<bar> < 2 ^ 53"
    using n engine_sound(1) [OF eng feas] by (rule small_count)
  then have exact: "of_int (match_count (decode m sol) pswd) = double_of hit"
    by (simp add: sat [symmetric] double_of_exact)
  have eng': "add_restrs (init d n) (gs @ [(pswd, hit)]) = Inr m'"
    using eng add by (rule add_restrs_snoc)
  have "holds sol (restr_of n (pswd, hit))"
    using holds_match_count [OF engine_sound(1) [OF eng feas] wf, of sol hit]
      engine_sound(2) [OF eng feas] exact by blast
  with feas have 1: "feasible_point m' sol"
    by (simp add: feasible_point_def m')
  have 2: "new_guess m' (reports sol) = Inr (PyStr (render (decode m sol)))"
    using engine_new_guess [OF eng', of sol] by (simp add: decode_init [OF eng'] decode_init [OF eng])
  have 3: "\<exists>a. new_guess m' (reports sol') = Inr (PyStr (render a)) \<and> length a = nat n \<and>
                 match_count a pswd = hit \<and> (\<forall>g\<in>set gs. match_count a (fst g) = snd g)"
    if "feasible_point m' sol'" for sol'
    using engine_new_guess [OF eng', of sol'] engine_sound(1) [OF eng' that]
      engine_sound_counts [OF eng' that n] by auto
  from 1 2 3 show ?thesis by blast
qed

theorem satisfied_constraint_keeps_feasible_witness:
  "add_restrs (init 2 2) [([0, 0], 1)] = Inr (add_constraint (restr_of 2 ([0, 0], 1)) (init 2 2)) \<and>
   feasible_point (add_constraint (restr_of 2 ([0, 0], 1)) (init 2 2)) (encode [0, 1]) \<and>
   match_count (decode (add_constraint (restr_of 2 ([0, 0], 1)) (init 2 2)) (encode [0, 1])) [1, 1] = 1 \<and>
   add_restr (add_constraint (restr_of 2 ([0, 0], 1)) (init 2 2)) [1, 1] 1 =
     Inr (add_constraint (restr_of 2 ([1, 1], 1)) (add_constraint (restr_of 2 ([0, 0], 1)) (init 2 2))) \<and>
   feasible_point
     (add_constraint (restr_of 2 ([1, 1], 1)) (add_constraint (restr_of 2 ([0, 0], 1)) (init 2 2)))
     (encode [0, 1]) \<and>
   new_guess
     (add_constraint (restr_of 2 ([1, 1], 1)) (add_constraint (restr_of 2 ([0, 0], 1)) (init 2 2)))
     (reports (encode [0, 1])) = Inr (PyStr '' 0 1'') \<and>
   (2 :: int) < 2 ^ 53"
proof -
  have n: "(2 :: int) < 2 ^ 53" by simp
  have eng: "add_restrs (init 2 2) [([0, 0], 1)] =
      Inr (add_constraint (restr_of 2 ([0, 0], 1)) (init 2 2))"
    by (simp add: eval_defs)
  have feas: "feasible_point (add_constraint (restr_of 2 ([0, 0], 1)) (init 2 2)) (encode [0, 1])"
    by (simp add: eval_defs)
  have dec: "decode (add_constraint (restr_of 2 ([0, 0], 1)) (init 2 2)) (encode [0, 1]) = [0, 1]"
    by (simp add: eval_defs)
  have add: "add_restr (add_constraint (restr_of 2 ([0, 0], 1)) (init 2 2)) [1, 1] 1 =
     Inr (add_constraint (restr_of 2 ([1, 1], 1)) (add_constraint (restr_of 2 ([0, 0], 1)) (init 2 2)))"
    by (simp add: eval_defs)
  have sat: "match_count (decode (add_constraint (restr_of 2 ([0, 0], 1)) (init 2 2)) (encode [0, 1])) [1, 1] = 1"
    by (simp add: dec)
  have shown: "render [0, 1] = '' 0 1''"
    by (simp add: eval_defs)
  from satisfied_constraint_keeps_feasible [OF eng feas add sat n] eng feas add sat
  show ?thesis by (simp add: dec shown)
qed

subsection \<open>C8\<close>

text \<open>
  C8: \<open>new_guess\<close> never raises. Whatever the object and whatever the solver does,
  it returns a value, and when anything in the body of its \<open>try\<close> raises (the call
  of \<open>Solve()\<close>, a look-up in \<open>X\<close>, a read of a solution value) that value is
  \<open>False\<close>.
\<close>

theorem new_guess_never_raises:
  "(\<exists>r. new_guess m run = Inr r) \<and>
   (\<forall>e. new_guess_try m run = Inl e \<longrightarrow> new_guess m run = Inr PyFalse)"
  by (simp add: new_guess_def split: sum.splits)

theorem new_guess_never_raises_witness:
  "new_guess_try (init 1 1) SolveRaises = Inl SolverError \<and>
   new_guess (init 1 1) SolveRaises = Inr PyFalse \<and>
   new_guess_try (init 1 1) (SolveReturns no_values) = Inl SolverError \<and>
   new_guess (init 1 1) (SolveReturns no_values) = Inr PyFalse"
proof -
  have a: "new_guess_try (init 1 1) SolveRaises = Inl SolverError"
    by (simp add: new_guess_try_def)
  have b: "new_guess_try (init 1 1) (SolveReturns no_values) = Inl SolverError"
    by (simp add: new_guess_try_def no_values_def eval_defs)
  from new_guess_never_raises [of "init 1 1" SolveRaises]
    new_guess_never_raises [of "init 1 1" "SolveReturns no_values"] a b
  show ?thesis by simp
qed

subsection \<open>C9\<close>

text \<open>
  C9: for a guess with more than \<open>n\<close> symbols \<open>add_restr\<close> does what it does for
  the first \<open>n\<close> symbols alone, errors included; when these are symbols of
  \<open>[0, d-1]\<close> the guess raises no error and the stored equality is the one of the
  first \<open>n\<close> symbols. The one error left is that of a count too large for a double,
  which does not depend on the guess.
\<close>

theorem add_restr_ignores_extra_symbols:
  assumes eng: "add_restrs (init d n) gs = Inr m" and long: "nat n < length pswd"
  shows "add_restr m pswd hit = add_restr m (take (nat n) pswd) hit \<and>
         ((\<forall>j<nat n. 0 \<le> pswd ! j \<and> pswd ! j < d) \<longrightarrow>
            add_restr m pswd hit =
              (if overflows hit then Inl OverflowError
               else Inr (add_constraint (restr_of n (take (nat n) pswd, hit)) m))) \<and>
         ((\<forall>j<nat n. 0 \<le> pswd ! j \<and> pswd ! j < d) \<and> \<bar>hit\<bar> < 2 ^ 53 \<longrightarrow>
            add_restr m pswd hit =
              Inr (add_constraint (map (\<lambda>j. (pswd ! j, j)) (range_nat n), of_int hit) m))"
proof -
  note f = engine_fields [OF eng]
  have "restr_vars (X m) (take (nat n) pswd) (range_nat n) = restr_vars (X m) pswd (range_nat n)"
    by (rule restr_vars_take) (simp add: set_range_nat)
  then have 1: "add_restr m pswd hit = add_restr m (take (nat n) pswd) hit"
    by (simp add: add_restr_def f(3))
  have same: "restr_of n (take (nat n) pswd, hit) = restr_of n (pswd, hit)"
    by (simp add: restr_of_def range_nat_def)
  have 2: "add_restr m pswd hit =
      (if overflows hit then Inl OverflowError
       else Inr (add_constraint (restr_of n (take (nat n) pswd, hit)) m))"
    if "\<forall>j<nat n. 0 \<le> pswd ! j \<and> pswd ! j < d"
  proof -
    have no: "\<not> (\<exists>j<min (nat n) (length pswd). pswd ! j < 0 \<or> d \<le> pswd ! j)"
      using that long by (auto simp: not_less)
    have nl: "\<not> length pswd < nat n" using long by simp
    show ?thesis
      unfolding add_restr_init [OF f(1,3)] same by (simp only: no nl if_False)
  qed
  have 3: "add_restr m pswd hit =
      Inr (add_constraint (map (\<lambda>j. (pswd ! j, j)) (range_nat n), of_int hit) m)"
    if h: "(\<forall>j<nat n. 0 \<le> pswd ! j \<and> pswd ! j < d) \<and> \<bar>hit\<bar> < 2 ^ 53"
  proof -
    from h have v: "\<forall>j<nat n. 0 \<le> pswd ! j \<and> pswd ! j < d" and s: "\<bar>hit\<bar> < 2 ^ 53"
      by simp_all
    from 2 [OF v] not_overflows_small [OF s]
    have "add_restr m pswd hit = Inr (add_constraint (restr_of n (pswd, hit)) m)"
      by (simp only: same if_False)
    then show ?thesis
      by (simp only: restr_of_def fst_conv snd_conv double_of_exact [OF s])
  qed
  from 1 2 3 show ?thesis by blast
qed

theorem add_restr_ignores_extra_symbols_witness:
  "add_restrs (init 2 2) [] = Inr (init 2 2) \<and> nat 2 < length [0, 1, 7 :: int] \<and>
   [0, 1, 7 :: int] ! 0 = 0 \<and> [0, 1, 7 :: int] ! 1 = 1 \<and> \<bar>1 :: int\<bar> < 2 ^ 53 \<and>
   add_restr (init 2 2) [0, 1, 7] 1 = add_restr (init 2 2) [0, 1] 1 \<and>
   add_restr (init 2 2) [0, 1, 7] 1 = Inr (add_constraint ([(0, 0), (1, 1)], 1) (init 2 2)) \<and>
   add_restr (init 2 2) [0, 1, 7] (2 ^ 1024) = Inl OverflowError"
proof -
  have eng: "add_restrs (init 2 2) [] = Inr (init 2 2)" by simp
  have long: "nat 2 < length [0, 1, 7 :: int]" by simp
  have sym: "\<forall>j<nat 2. 0 \<le> [0, 1, 7 :: int] ! j \<and> [0, 1, 7 :: int] ! j < 2"
    by (simp add: numeral_2_eq_2 All_less_Suc)
  have small: "\<bar>1 :: int\<bar> < 2 ^ 53" by simp
  have big: "overflows (2 ^ 1024)" by (rule overflows_large) simp
  have c: "map (\<lambda>j. ([0, 1, 7 :: int] ! j, j)) (range_nat 2) = [(0, 0), (1, 1)]"
    by (simp add: eval_defs)
  note inst = add_restr_ignores_extra_symbols [OF eng long]
  have a: "add_restr (init 2 2) [0, 1, 7] 1 = add_restr (init 2 2) [0, 1] 1"
    using inst [of 1] by simp
  from inst [of 1] sym small
  have "add_restr (init 2 2) [0, 1, 7] 1 =
      Inr (add_constraint (map (\<lambda>j. ([0, 1, 7] ! j, j)) (range_nat 2), of_int 1) (init 2 2))"
    by blast
  then have b: "add_restr (init 2 2) [0, 1, 7] 1 =
      Inr (add_constraint ([(0, 0), (1, 1)], 1) (init 2 2))"
    by (simp add: c)
  from inst [of "2 ^ 1024"] sym
  have "add_restr (init 2 2) [0, 1, 7] (2 ^ 1024) =
      (if overflows (2 ^ 1024) then Inl OverflowError
       else Inr (add_constraint (restr_of 2 (take (nat 2) [0, 1, 7], 2 ^ 1024)) (init 2 2)))"
    by blast
  with big have o: "add_restr (init 2 2) [0, 1, 7] (2 ^ 1024) = Inl OverflowError"
    by simp
  show ?thesis by (intro conjI eng long a b o small) simp_all
qed

subsection \<open>C3\<close>

text \<open>
  C3 as stated does not hold: the count is not compared with \<open>[0, n]\<close>, and a guess
  longer than \<open>n\<close> is accepted. With \<open>n = 2\<close>, the guess \<open>[0, 1]\<close> with count \<open>5\<close> is
  stored, and so is the three-symbol guess \<open>[0, 1, 7]\<close>.
\<close>

theorem add_restr_accepts_any_count:
  "add_restr (init 2 2) [0, 1] 5 = Inr (add_constraint ([(0, 0), (1, 1)], 5) (init 2 2)) \<and>
   add_restr (init 2 2) [0, 1, 7] 1 = Inr (add_constraint ([(0, 0), (1, 1)], 1) (init 2 2))"
  by (simp add: eval_defs)

text \<open>
  C3, amended: on an engine, for a guess of integers, \<open>add_restr\<close> raises KeyError
  when one of the symbols it reads (the first \<open>n\<close>, as far as the guess goes) is
  outside \<open>[0, d-1]\<close>, raises IndexError when these are all inside and the guess has
  fewer than \<open>n\<close> symbols, and raises OverflowError when the guess passes and the
  count is too large for a double, as every count of magnitude \<open>2 ^ 1024\<close> or more
  is. An error leaves no new engine: nothing is stored. Otherwise the equality of
  the first \<open>n\<close> symbols is stored with the double nearest to the count, which is
  the count itself below \<open>2 ^ 53\<close> in magnitude, whether or not it lies in \<open>[0, n]\<close>.
\<close>

theorem add_restr_checks:
  assumes eng: "add_restrs (init d n) gs = Inr m"
  shows "add_restr m pswd hit =
          (if \<exists>j<min (nat n) (length pswd). pswd ! j < 0 \<or> d \<le> pswd ! j then Inl KeyError
           else if length pswd < nat n then Inl IndexError
           else if overflows hit then Inl OverflowError
           else Inr (add_constraint (map (\<lambda>j. (pswd ! j, j)) (range_nat n), double_of hit) m)) \<and>
         (\<bar>hit\<bar> < 2 ^ 53 \<longrightarrow> \<not> overflows hit \<and> double_of hit = of_int hit) \<and>
         (2 ^ 1024 \<le> \<bar>hit\<bar> \<longrightarrow> overflows hit)"
proof (intro conjI impI)
  show "add_restr m pswd hit =
          (if \<exists>j<min (nat n) (length pswd). pswd ! j < 0 \<or> d \<le> pswd ! j then Inl KeyError
           else if length pswd < nat n then Inl IndexError
           else if overflows hit then Inl OverflowError
           else Inr (add_constraint (map (\<lambda>j. (pswd ! j, j)) (range_nat n), double_of hit) m))"
    using add_restr_init [OF engine_fields(1,3) [OF eng], of pswd hit]
    by (simp only: restr_of_def fst_conv snd_conv)
next
  assume "\<bar>hit\<bar> < 2 ^ 53"
  then show "\<not> overflows hit" "double_of hit = of_int hit"
    by (simp_all add: not_overflows_small double_of_exact)
next
  assume "2 ^ 1024 \<le> \<bar>hit\<bar>"
  then show "overflows hit" by (rule overflows_large)
qed

theorem add_restr_checks_witness:
  "add_restrs (init 2 2) [] = Inr (init 2 2) \<and>
   add_restr (init 2 2) [0, 2] 1 = Inl KeyError \<and>
   add_restr (init 2 2) [- 1, 0] 1 = Inl KeyError \<and>
   add_restr (init 2 2) [0] 1 = Inl IndexError \<and>
   add_restr (init 2 2) [1, 0] (2 ^ 1024) = Inl OverflowError \<and>
   add_restr (init 2 2) [1, 0] (- (2 ^ 1024)) = Inl OverflowError \<and>
   add_restr (init 2 2) [1, 0] 7 = Inr (add_constraint ([(1, 0), (0, 1)], 7) (init 2 2)) \<and>
   add_restr (init 2 2) [1, 0] (- 3) = Inr (add_constraint ([(1, 0), (0, 1)], - 3) (init 2 2))"
proof -
  have eng: "add_restrs (init 2 2) [] = Inr (init 2 2)" by simp
  have c: "map (\<lambda>j. ([1, 0 :: int] ! j, j)) (range_nat 2) = [(1, 0), (0, 1)]"
    by (simp add: eval_defs)
  note inst = add_restr_checks [OF eng]
  have big: "(2 :: int) ^ 1024 \<le> \<bar>2 ^ 1024\<bar>" "(2 :: int) ^ 1024 \<le> \<bar>- (2 ^ 1024)\<bar>"
    by simp_all
  have small: "\<bar>7 :: int\<bar> < 2 ^ 53" "\<bar>- 3 :: int\<bar> < 2 ^ 53" "\<bar>1 :: int\<bar> < 2 ^ 53"
    by simp_all
  have o1: "overflows (2 ^ 1024)" using inst [of "[]" "2 ^ 1024"] big(1) by blast
  have o2: "overflows (- (2 ^ 1024))" using inst [of "[]" "- (2 ^ 1024)"] big(2) by blast
  have s7: "\<not> overflows 7" "double_of 7 = 7" using inst [of "[]" 7] small(1) by simp_all
  have s3: "\<not> overflows (- 3)" "double_of (- 3) = - 3" using inst [of "[]" "- 3"] small(2) by simp_all
  have s1: "\<not> overflows 1" using inst [of "[]" 1] small(3) by simp
  have k1: "add_restr (init 2 2) [0, 2] 1 = Inl KeyError"
    using inst [of "[0, 2]" 1] by (simp add: Ex_less_Suc All_less_Suc)
  have k2: "add_restr (init 2 2) [- 1, 0] 1 = Inl KeyError"
    using inst [of "[- 1, 0]" 1] by (simp add: Ex_less_Suc All_less_Suc)
  have i1: "add_restr (init 2 2) [0] 1 = Inl IndexError"
    using inst [of "[0]" 1] by (simp add: Ex_less_Suc All_less_Suc)
  have v1: "add_restr (init 2 2) [1, 0] (2 ^ 1024) = Inl OverflowError"
    using inst [of "[1, 0]" "2 ^ 1024"] o1 by (simp add: Ex_less_Suc All_less_Suc)
  have v2: "add_restr (init 2 2) [1, 0] (- (2 ^ 1024)) = Inl OverflowError"
    using inst [of "[1, 0]" "- (2 ^ 1024)"] o2 by (simp add: Ex_less_Suc All_less_Suc)
  have a7: "add_restr (init 2 2) [1, 0] 7 = Inr (add_constraint ([(1, 0), (0, 1)], 7) (init 2 2))"
    using inst [of "[1, 0]" 7] s7 by (simp add: Ex_less_Suc All_less_Suc c)
  have a3: "add_restr (init 2 2) [1, 0] (- 3) =
      Inr (add_constraint ([(1, 0), (0, 1)], - 3) (init 2 2))"
    using inst [of "[1, 0]" "- 3"] s3 by (simp add: Ex_less_Suc All_less_Suc c)
  show ?thesis by (intro conjI eng k1 k2 i1 v1 v2 a7 a3)
qed

subsection \<open>C5\<close>

text \<open>
  C5 as stated does not hold: nothing in the class chooses among the solutions of
  the model, and the all-zero assignment is one solution among others. With
  \<open>d = 3\<close> and \<open>n = 2\<close> and no guess, the point of the assignment \<open>[2, 2]\<close>, the one
  the CBC solver reports there, is a solution; \<open>new_guess\<close> answers it with the
  suggestion \<open>2 2\<close>, which is not the suggestion \<open>0 0\<close> of the all-zero assignment.
\<close>

theorem fresh_engine_not_all_zeros:
  "feasible_point (init 3 2) (encode [2, 2]) \<and>
   new_guess (init 3 2) (reports (encode [2, 2])) = Inr (PyStr '' 2 2'') \<and>
   render (replicate 2 0) = '' 0 0''"
proof -
  have eng: "add_restrs (init 3 2) [] = Inr (init 3 2)" by simp
  have "feasible_point (init 3 2) (encode [2, 2])" by (simp add: eval_defs)
  moreover have "render (decode (init 3 2) (encode [2, 2])) = '' 2 2''" by (simp add: eval_defs)
  moreover have "render (replicate 2 0) = '' 0 0''"
    by (simp add: eval_defs numeral_2_eq_2)
  ultimately show ?thesis using engine_new_guess [OF eng, of "encode [2, 2]"] by simp
qed

text \<open>
  C5, amended: for \<open>d \<ge> 1\<close> and \<open>n \<ge> 1\<close> the model of a fresh engine has
  solutions: the point of every assignment of \<open>n\<close> symbols of \<open>[0, d-1]\<close> is one, the
  all-zero assignment among them, and \<open>new_guess\<close> answers it with that assignment;
  every solution the solver reports is answered with a suggestion of \<open>n\<close> symbols
  of \<open>[0, d-1]\<close>. Which solution is reported is the solver's choice.
\<close>

theorem fresh_engine_feasible:
  assumes d: "1 \<le> d" and n: "1 \<le> n"
  shows "feasible_point (init d n) (encode (replicate (nat n) 0)) \<and>
         new_guess (init d n) (reports (encode (replicate (nat n) 0))) =
           Inr (PyStr (render (replicate (nat n) 0))) \<and>
         (\<forall>a. length a = nat n \<and> (\<forall>j<nat n. 0 \<le> a ! j \<and> a ! j < d) \<longrightarrow>
              feasible_point (init d n) (encode a) \<and>
              new_guess (init d n) (reports (encode a)) = Inr (PyStr (render a))) \<and>
         (\<forall>sol. feasible_point (init d n) sol \<longrightarrow>
              (\<exists>a. new_guess (init d n) (reports sol) = Inr (PyStr (render a)) \<and>
                   length a = nat n \<and> (\<forall>j<nat n. 0 \<le> a ! j \<and> a ! j < d)))"
proof -
  have eng: "add_restrs (init d n) [] = Inr (init d n)" by simp
  have gen: "feasible_point (init d n) (encode a) \<and>
      new_guess (init d n) (reports (encode a)) = Inr (PyStr (render a))"
    if "length a = nat n" "\<forall>j<nat n. 0 \<le> a ! j \<and> a ! j < d" for a
    using engine_complete [OF eng that] engine_new_guess [OF eng, of "encode a"] by simp
  have zeros: "length (replicate (nat n) (0::int)) = nat n"
    "\<forall>j<nat n. 0 \<le> replicate (nat n) (0::int) ! j \<and> replicate (nat n) (0::int) ! j < d"
    using d by simp_all
  have any: "\<exists>a. new_guess (init d n) (reports sol) = Inr (PyStr (render a)) \<and>
      length a = nat n \<and> (\<forall>j<nat n. 0 \<le> a ! j \<and> a ! j < d)"
    if "feasible_point (init d n) sol" for sol
    using engine_new_guess [OF eng, of sol] engine_sound(1,2) [OF eng that] by blast
  from gen [OF zeros] gen any show ?thesis by blast
qed

theorem fresh_engine_feasible_witness:
  "(1::int) \<le> 3 \<and> (1::int) \<le> 2 \<and>
   feasible_point (init 3 2) (encode [0, 0]) \<and>
   new_guess (init 3 2) (reports (encode [0, 0])) = Inr (PyStr '' 0 0'') \<and>
   feasible_point (init 3 2) (encode [2, 2]) \<and>
   new_guess (init 3 2) (reports (encode [2, 2])) = Inr (PyStr '' 2 2'') \<and>
   (\<exists>a. new_guess (init 3 2) (reports (encode [2, 2])) = Inr (PyStr (render a)) \<and> length a = 2)"
proof -
  have d: "(1::int) \<le> 3" and n: "(1::int) \<le> 2" by simp_all
  note inst = fresh_engine_feasible [OF d n]
  have r: "replicate 2 (0::int) = [0, 0]" by (simp add: numeral_2_eq_2)
  have shown: "render [0, 0] = '' 0 0''" "render [2, 2] = '' 2 2''" by (simp_all add: eval_defs)
  have two: "length [2, 2 :: int] = nat 2 \<and> (\<forall>j<nat 2. 0 \<le> [2, 2 :: int] ! j \<and> [2, 2 :: int] ! j < 3)"
    by (simp add: numeral_2_eq_2 All_less_Suc)
  from inst have a: "feasible_point (init 3 2) (encode [0, 0])"
    and b: "new_guess (init 3 2) (reports (encode [0, 0])) = Inr (PyStr '' 0 0'')"
    by (simp_all add: r shown)
  from inst two have "feasible_point (init 3 2) (encode [2, 2]) \<and>
      new_guess (init 3 2) (reports (encode [2, 2])) = Inr (PyStr (render [2, 2]))"
    by blast
  then have c: "feasible_point (init 3 2) (encode [2, 2])"
    and e: "new_guess (init 3 2) (reports (encode [2, 2])) = Inr (PyStr '' 2 2'')"
    by (simp_all add: shown)
  from inst c have f: "\<exists>a. new_guess (init 3 2) (reports (encode [2, 2])) = Inr (PyStr (render a)) \<and>
      length a = 2"
    by (metis nat_numeral)
  show ?thesis by (intro conjI d n a b c e f)
qed

subsection \<open>C6\<close>




subsection \<open>C2\<close>

text \<open>
  C2 does not hold of the code, by the defect seen at C1. With \<open>d = 2\<close>, \<open>n = 1\<close>
  and the guess \<open>[0]\<close> stored with the counts \<open>1\<close> and \<open>0\<close> the model has no solution.
  The solver says so in the status of \<open>Solve()\<close>, which \<open>new_guess\<close> does not read;
  nothing raises, every solution value reads \<open>0\<close>, and the result is the empty
  string where the notebook promises \<open>False\<close>.
\<close>

theorem contradictory_guesses_not_answered_with_False:
  "add_restrs (init 2 1) [([0], 1), ([0], 0)] = Inr (add_constraint (restr_of 1 ([0], 0)) (add_constraint (restr_of 1 ([0], 1)) (init 2 1))) \<and>
   \<not> feasible_point (add_constraint (restr_of 1 ([0], 0)) (add_constraint (restr_of 1 ([0], 1)) (init 2 1))) sol \<and>
   new_guess (add_constraint (restr_of 1 ([0], 0)) (add_constraint (restr_of 1 ([0], 1)) (init 2 1))) (SolveReturns zero_values) = Inr (PyStr []) \<and>
   new_guess (add_constraint (restr_of 1 ([0], 0)) (add_constraint (restr_of 1 ([0], 1)) (init 2 1))) (SolveReturns zero_values) \<noteq> Inr PyFalse"
proof -
  have eng: "add_restrs (init 2 1) [([0], 1), ([0], 0)] = Inr (add_constraint (restr_of 1 ([0], 0)) (add_constraint (restr_of 1 ([0], 1)) (init 2 1)))"
    by (simp add: eval_defs)
  have none: "\<not> feasible_point (add_constraint (restr_of 1 ([0], 0)) (add_constraint (restr_of 1 ([0], 1)) (init 2 1))) sol"
    by (auto simp: eval_defs)
  have zeros: "new_guess (add_constraint (restr_of 1 ([0], 0)) (add_constraint (restr_of 1 ([0], 1)) (init 2 1))) (SolveReturns zero_values) = Inr (PyStr [])"
    unfolding new_guess_engine [OF engine_fields(1,2,3) [OF eng]]
    by (simp add: zero_values_def render_def)
  then have "new_guess (add_constraint (restr_of 1 ([0], 0)) (add_constraint (restr_of 1 ([0], 1)) (init 2 1))) (SolveReturns zero_values) \<noteq> Inr PyFalse" by simp
  with eng none zeros show ?thesis by (intro conjI)
qed

subsection \<open>C4\<close>

text \<open>
  C4: with \<open>d = 10\<close> and \<open>n = 5\<close> the six guesses of the example are accepted, the
  point of \<open>[3, 9, 5, 4, 2]\<close> is a solution of the model, every solution the solver
  reports is answered with the suggestion \<open>3 9 5 4 2\<close>, and this assignment is the
  only one of five symbols of \<open>[0, 9]\<close> that satisfies the six guesses.
\<close>

theorem euler_example:
  "\<exists>m. add_restrs (init 10 5) euler_guesses = Inr m \<and>
       feasible_point m (encode [3, 9, 5, 4, 2]) \<and>
       (\<forall>sol. feasible_point m sol \<longrightarrow>
              new_guess m (reports sol) = Inr (PyStr '' 3 9 5 4 2'')) \<and>
       render [3, 9, 5, 4, 2] = '' 3 9 5 4 2'' \<and>
       (\<forall>g\<in>set euler_guesses. match_count [3, 9, 5, 4, 2] (fst g) = snd g) \<and>
       (\<forall>a. length a = 5 \<and> (\<forall>x\<in>set a. 0 \<le> x \<and> x \<le> 9) \<and>
            (\<forall>g\<in>set euler_guesses. match_count a (fst g) = snd g) \<longrightarrow> a = [3, 9, 5, 4, 2])"
proof -
  have "\<exists>m. add_restrs (init 10 5) euler_guesses = Inr m"
    using euler_well_formed by (intro add_restrs_total [of _ 10 5]) simp_all
  then obtain m where eng: "add_restrs (init 10 5) euler_guesses = Inr m" ..
  have len: "length [3, 9, 5, 4, 2 :: int] = nat 5" by simp
  have sym: "\<forall>j<nat 5. 0 \<le> [3, 9, 5, 4, 2 :: int] ! j \<and> [3, 9, 5, 4, 2 :: int] ! j < 10"
    by (simp add: eval_nat_numeral All_less_Suc)
  have feas: "feasible_point m (encode [3, 9, 5, 4, 2])"
    by (rule engine_complete(1) [OF eng len sym euler_solution]) simp
  have shown: "render [3, 9, 5, 4, 2] = '' 3 9 5 4 2''"
    by (simp add: render_def str_def digit_chars.simps)
  have found: "new_guess m (reports sol) = Inr (PyStr '' 3 9 5 4 2'')" if "feasible_point m sol" for sol
  proof -
    have "length (decode m sol) = 5" using engine_sound(1) [OF eng that] by simp
    then have "decode m sol = [3, 9, 5, 4, 2]"
      using engine_sound_counts [OF eng that] by (intro euler_unique) simp_all
    with engine_new_guess [OF eng, of sol] shown show ?thesis by simp
  qed
  have uniq: "a = [3, 9, 5, 4, 2]"
    if "length a = 5 \<and> (\<forall>x\<in>set a. 0 \<le> x \<and> x \<le> 9) \<and>
        (\<forall>g\<in>set euler_guesses. match_count a (fst g) = snd g)" for a
    using that euler_unique by blast
  from eng feas found shown euler_solution uniq show ?thesis by blast
qed

theorem euler_example_witness:
  "\<not> isl (add_restrs (init 10 5) euler_guesses) \<and>
   feasible_point (projr (add_restrs (init 10 5) euler_guesses)) (encode [3, 9, 5, 4, 2]) \<and>
   new_guess (projr (add_restrs (init 10 5) euler_guesses)) (reports (encode [3, 9, 5, 4, 2])) =
     Inr (PyStr '' 3 9 5 4 2'') \<and>
   length [3, 9, 5, 4, 2 :: int] = 5 \<and>
   match_count [3, 9, 5, 4, 2] [9, 0, 3, 4, 2] = 2 \<and>
   match_count [3, 9, 5, 4, 2] [7, 0, 7, 9, 4] = 0 \<and>
   match_count [3, 9, 5, 4, 2] [3, 9, 4, 5, 8] = 2 \<and>
   match_count [3, 9, 5, 4, 2] [3, 4, 1, 0, 9] = 1 \<and>
   match_count [3, 9, 5, 4, 2] [5, 1, 5, 4, 5] = 2 \<and>
   match_count [3, 9, 5, 4, 2] [1, 2, 5, 3, 1] = 1"
proof -
  from euler_example obtain m where eng: "add_restrs (init 10 5) euler_guesses = Inr m"
    and feas: "feasible_point m (encode [3, 9, 5, 4, 2])"
    and found: "\<forall>sol. feasible_point m sol \<longrightarrow>
              new_guess m (reports sol) = Inr (PyStr '' 3 9 5 4 2'')"
    and sat: "\<forall>g\<in>set euler_guesses. match_count [3, 9, 5, 4, 2] (fst g) = snd g"
    by blast
  from found feas have "new_guess m (reports (encode [3, 9, 5, 4, 2])) = Inr (PyStr '' 3 9 5 4 2'')"
    by blast
  with eng feas sat show ?thesis by (simp add: euler_guesses_def)
qed

end
